theory Spec2Isabelle
  imports Main "HOL-Library.Product_Lexorder" "HOL-Library.List_Lexorder" "HOL-Library.Option_ord"
begin

section \<open>Rows and frames\<close>

text \<open>
  A column value is a nullable integer (\<open>None\<close> is SQL NULL): identifiers, timestamps and
  the counters the engines add are all integers.  A row is an ordered mapping from column
  name to value, a frame (a Spark DataFrame, or the content of a Delta table) is a schema
  and a list of rows.  Spark resolves every column name against the schema when a
  DataFrame is built and raises when the name is not there; the engines below make that
  check (\<open>resolves\<close>, with the error \<open>UnresolvedColumn\<close>) before they read a row.  Reading a
  row, \<open>col\<close> gives NULL for a column that the row does not have, which is what
  \<open>unionByName\<close> with \<open>allowMissingColumns\<close> fills in.
\<close>

type_synonym cell = "int option"
type_synonym row = "(string \<times> cell) list"

record frame =
  columns :: "string list"
  rows :: "row list"

definition col :: "row \<Rightarrow> string \<Rightarrow> cell" where
  "col r c = (case map_of r c of Some v \<Rightarrow> v | None \<Rightarrow> None)"

text \<open>The values of the key columns of a row, as \<open>partitionBy\<close>, \<open>distinct\<close> and
  \<open>drop_duplicates\<close> group them: two NULLs are the same group.\<close>

definition key :: "string list \<Rightarrow> row \<Rightarrow> cell list" where
  "key ks r = map (col r) ks"

text \<open>A row laid out in a given schema; a column the row lacks is NULL.\<close>

definition conform :: "string list \<Rightarrow> row \<Rightarrow> row" where
  "conform cs r = map (\<lambda>c. (c, col r c)) cs"

text \<open>\<open>withColumn\<close> on one row: the column is replaced where it stands, or added last.\<close>

definition set_col :: "string \<Rightarrow> cell \<Rightarrow> row \<Rightarrow> row" where
  "set_col c v r =
     (if c \<in> set (map fst r) then map (\<lambda>(k, x). if k = c then (k, v) else (k, x)) r
      else r @ [(c, v)])"

definition add_column :: "string \<Rightarrow> string list \<Rightarrow> string list" where
  "add_column c cs = (if c \<in> set cs then cs else cs @ [c])"

definition drop_col :: "string \<Rightarrow> frame \<Rightarrow> frame" where
  "drop_col c df =
     \<lparr>columns = filter (\<lambda>k. k \<noteq> c) (columns df),
      rows = map (filter (\<lambda>p. fst p \<noteq> c)) (rows df)\<rparr>"

definition where_rows :: "(row \<Rightarrow> bool) \<Rightarrow> frame \<Rightarrow> frame" where
  "where_rows p df = df\<lparr>rows := filter p (rows df)\<rparr>"

text \<open>The SQL condition \<open>source.k = target.k AND ...\<close> over the columns \<open>ks\<close>: an
  equality with a NULL operand is not true.\<close>

definition matches :: "string list \<Rightarrow> row \<Rightarrow> row \<Rightarrow> bool" where
  "matches ks s t = list_all (\<lambda>k. col s k \<noteq> None \<and> col s k = col t k) ks"

text \<open>\<open>left.join(right, keys, 'left_semi')\<close>: the rows of \<open>left\<close> that have a partner in
  \<open>right\<close>.\<close>

definition join_left_semi :: "frame \<Rightarrow> frame \<Rightarrow> string list \<Rightarrow> frame" where
  "join_left_semi left right ks =
     where_rows (\<lambda>l. list_ex (\<lambda>r. matches ks r l) (rows right)) left"

text \<open>\<open>a.unionByName(b, allowMissingColumns=True)\<close>.\<close>

definition unionByName :: "frame \<Rightarrow> frame \<Rightarrow> frame" where
  "unionByName a b =
     (let cs = columns a @ filter (\<lambda>c. c \<notin> set (columns a)) (columns b)
      in \<lparr>columns = cs, rows = map (conform cs) (rows a @ rows b)\<rparr>)"

subsection \<open>Windows\<close>

text \<open>
  A window partitions the rows by key and orders each partition.  Ascending order puts
  NULL first, descending order puts it last, as Spark does.  Rows that compare equal keep
  the order they arrive in; Spark leaves that order open.
\<close>

datatype ordering = Asc string | Desc string

record window =
  partitionBy :: "string list"
  orderBy :: "ordering list"

fun ord_key :: "ordering \<Rightarrow> row \<Rightarrow> nat \<times> int" where
  "ord_key (Asc c) r = (case col r c of None \<Rightarrow> (0, 0) | Some x \<Rightarrow> (1, x))"
| "ord_key (Desc c) r = (case col r c of None \<Rightarrow> (1, 0) | Some x \<Rightarrow> (0, - x))"

definition sort_rows :: "ordering list \<Rightarrow> row list \<Rightarrow> row list" where
  "sort_rows os rs = sort_key (\<lambda>r. map (\<lambda>ob. ord_key ob r) os) rs"

definition partitions :: "string list \<Rightarrow> row list \<Rightarrow> row list list" where
  "partitions ks rs =
     map (\<lambda>k. filter (\<lambda>r. key ks r = k) rs) (remdups (map (key ks) rs))"

text \<open>\<open>df.withColumn(c, fn.over(w))\<close>: \<open>fn\<close> gives, for an ordered partition, the value
  of each of its rows.\<close>

definition withColumn_over :: "string \<Rightarrow> (row list \<Rightarrow> cell list) \<Rightarrow> window \<Rightarrow> frame \<Rightarrow> frame" where
  "withColumn_over c fn w df =
     \<lparr>columns = add_column c (columns df),
      rows = concat (map (\<lambda>p. let sp = sort_rows (orderBy w) p
                               in map2 (set_col c) (fn sp) sp)
                         (partitions (partitionBy w) (rows df)))\<rparr>"

fun lead :: "string \<Rightarrow> row list \<Rightarrow> cell list" where
  "lead c [] = []"
| "lead c [r] = [None]"
| "lead c (r # r' # rs) = col r' c # lead c (r' # rs)"

definition row_number :: "row list \<Rightarrow> cell list" where
  "row_number p = map (\<lambda>i. Some (int i)) [1 ..< Suc (length p)]"

definition count_star :: "row list \<Rightarrow> cell list" where
  "count_star p = replicate (length p) (Some (int (length p)))"

section \<open>The table store\<close>

datatype error =
    ValueError string
  | NoSuchTable
  | PathAlreadyExists
  | UnresolvedColumn
  | SchemaMismatch
  | MultipleSourceRowsMatched
  | ConflictError

datatype handle = ForPath string | ForName string

datatype call =
    ReadSnapshot string
  | Merge string
  | Detail string
  | CreateOrReplace "string option" "string option" "string list"
  | SaveAsTable string
  | SavePath string
  | WriteNew string
  | ReadLocation string
  | Append string

text \<open>
  The store keeps the Delta tables by storage location and a catalog from table identifier
  to location.  \<open>conflicts\<close> is the number of coming commits that a concurrent writer
  invalidates, and \<open>calls\<close> records the calls made to the store, oldest first.
\<close>

record store =
  tables :: "string \<rightharpoonup> frame"
  catalog :: "string \<rightharpoonup> string"
  warehouse :: string
  conflicts :: nat
  calls :: "call list"

definition record_call :: "call \<Rightarrow> store \<Rightarrow> store" where
  "record_call c st = st\<lparr>calls := calls st @ [c]\<rparr>"

definition locate :: "store \<Rightarrow> handle \<Rightarrow> string option" where
  "locate st h = (case h of ForPath p \<Rightarrow> Some p | ForName n \<Rightarrow> catalog st n)"

text \<open>\<open>delta_table.toDF()\<close>.\<close>

definition toDF :: "store \<Rightarrow> handle \<Rightarrow> (error + frame) \<times> store" where
  "toDF st h =
     (case locate st h of
        None \<Rightarrow> (Inl NoSuchTable, st)
      | Some l \<Rightarrow>
          (case tables st l of
             None \<Rightarrow> (Inl NoSuchTable, record_call (ReadSnapshot l) st)
           | Some t \<Rightarrow> (Inr t, record_call (ReadSnapshot l) st)))"

text \<open>
  \<open>target.merge(source, cond).whenMatchedUpdateAll().whenNotMatchedInsertAll()\<close> on the
  rows: a target row takes the values of the source row that matches it, a source row
  that matches nothing is inserted, and Delta refuses the merge when two source rows
  match one target row.  The condition names the key columns on both sides, and updating
  or inserting all columns takes every column of the target from the source.
\<close>

definition resolves :: "string list \<Rightarrow> frame \<Rightarrow> bool" where
  "resolves ks df = list_all (\<lambda>k. k \<in> set (columns df)) ks"

definition upsert_all :: "string list \<Rightarrow> frame \<Rightarrow> frame \<Rightarrow> error + frame" where
  "upsert_all ks src tgt =
     (if \<not> (resolves ks src \<and> resolves ks tgt) then Inl UnresolvedColumn
      else if \<not> resolves (columns tgt) src then Inl UnresolvedColumn
      else if list_ex (\<lambda>t. 1 < length (filter (\<lambda>s. matches ks s t) (rows src))) (rows tgt)
      then Inl MultipleSourceRowsMatched
      else Inr (tgt\<lparr>rows :=
             map (\<lambda>t. case filter (\<lambda>s. matches ks s t) (rows src) of
                         [] \<Rightarrow> t
                       | s # _ \<Rightarrow> conform (columns tgt) s) (rows tgt)
             @ map (conform (columns tgt))
                 (filter (\<lambda>s. \<not> list_ex (\<lambda>t. matches ks s t) (rows tgt)) (rows src))\<rparr>))"

text \<open>\<open>target.merge(source, cond).whenMatchedDelete()\<close>.\<close>

definition delete_matched :: "string list \<Rightarrow> frame \<Rightarrow> frame \<Rightarrow> error + frame" where
  "delete_matched ks src tgt =
     (if \<not> (resolves ks src \<and> resolves ks tgt) then Inl UnresolvedColumn
      else Inr (tgt\<lparr>rows :=
             filter (\<lambda>t. \<not> list_ex (\<lambda>s. matches ks s t) (rows src)) (rows tgt)\<rparr>))"

text \<open>\<open>merge(...)...execute()\<close>: the merge is computed on the table as it is read, then
  committed in one attempt, which the store refuses with \<open>ConflictError\<close> when a concurrent
  writer got in first.\<close>

definition execute_merge :: "store \<Rightarrow> handle \<Rightarrow> (frame \<Rightarrow> error + frame) \<Rightarrow> (error + unit) \<times> store" where
  "execute_merge st h action =
     (case locate st h of
        None \<Rightarrow> (Inl NoSuchTable, st)
      | Some l \<Rightarrow>
          (let st1 = record_call (Merge l) st in
           case tables st1 l of
             None \<Rightarrow> (Inl NoSuchTable, st1)
           | Some t \<Rightarrow>
               (case action t of
                  Inl e \<Rightarrow> (Inl e, st1)
                | Inr t' \<Rightarrow>
                    if 0 < conflicts st1
                    then (Inl ConflictError, st1\<lparr>conflicts := conflicts st1 - 1\<rparr>)
                    else (Inr (), st1\<lparr>tables := (tables st1)(l \<mapsto> t')\<rparr>))))"

section \<open>Slowly changing dimensions\<close>

text \<open>Python's \<open>not end_ts\<close>: the argument is \<open>None\<close> or the empty string.\<close>

definition falsy :: "string option \<Rightarrow> bool" where
  "falsy s = (case s of None \<Rightarrow> True | Some x \<Rightarrow> x = [])"

definition name_of :: "string option \<Rightarrow> string" where
  "name_of s = (case s of None \<Rightarrow> [] | Some x \<Rightarrow> x)"

definition scd2_payload :: "frame \<Rightarrow> frame \<Rightarrow> string list \<Rightarrow> string \<Rightarrow> string \<Rightarrow> frame" where
  "scd2_payload target source ks effective_ts end_ts =
     (let updated_rows = where_rows (\<lambda>r. col r end_ts = None) (join_left_semi target source ks);
          combined_rows = unionByName updated_rows source;
          w = \<lparr>partitionBy = ks, orderBy = [Asc effective_ts]\<rparr>
      in withColumn_over end_ts (lead effective_ts) w combined_rows)"

text \<open>
  \<open>_scd2\<close>.  The join and the filter are built on the table that is read, so the keys and
  \<open>end_ts\<close> must be columns of it, and the window is built on the combined rows, so
  \<open>effective_ts\<close> must be a column of the table or of the batch; otherwise Spark raises
  before the merge.  On the side of the batch the join reads a key that the batch does not
  have as NULL, so such a row joins nothing; the theorems on conflicts and on the bootstrap
  require the keys among the columns of the batch.
\<close>

definition scd2 :: "store \<Rightarrow> handle \<Rightarrow> frame \<Rightarrow> string list \<Rightarrow> string \<Rightarrow> string option
    \<Rightarrow> (error + handle) \<times> store" where
  "scd2 st delta_table source ks effective_ts end_ts =
     (if falsy end_ts
      then (Inl (ValueError ''`end_ts` parameter not provided, type 2 scd requires this''), st)
      else
        (case toDF st delta_table of
           (Inl e, st1) \<Rightarrow> (Inl e, st1)
         | (Inr target, st1) \<Rightarrow>
             (if \<not> (resolves (ks @ [name_of end_ts]) target
                     \<and> resolves [effective_ts] (unionByName target source))
              then (Inl UnresolvedColumn, st1)
              else
                (let final_payload = scd2_payload target source ks effective_ts (name_of end_ts);
                     merge_keys = ks @ [effective_ts]
                 in case execute_merge st1 delta_table (upsert_all merge_keys final_payload) of
                      (Inl e, st2) \<Rightarrow> (Inl e, st2)
                    | (Inr _, st2) \<Rightarrow> (Inr delta_table, st2)))))"

definition scd1_payload :: "frame \<Rightarrow> string list \<Rightarrow> string \<Rightarrow> string \<Rightarrow> frame" where
  "scd1_payload source ks effective_ts row_number_uuid =
     (let w = \<lparr>partitionBy = ks, orderBy = [Desc effective_ts]\<rparr>
      in drop_col row_number_uuid
           (where_rows (\<lambda>r. col r row_number_uuid = Some 1)
              (withColumn_over row_number_uuid row_number w source)))"

text \<open>\<open>_scd1\<close>.  The window is built on the batch, so the keys and \<open>effective_ts\<close> must
  be columns of it; otherwise Spark raises before the merge.\<close>

definition scd1 :: "store \<Rightarrow> handle \<Rightarrow> frame \<Rightarrow> string list \<Rightarrow> string \<Rightarrow> string
    \<Rightarrow> (error + handle) \<times> store" where
  "scd1 st delta_table source ks effective_ts row_number_uuid =
     (if \<not> resolves (ks @ [effective_ts]) source then (Inl UnresolvedColumn, st)
      else
        (let final_payload = scd1_payload source ks effective_ts row_number_uuid
         in case execute_merge st delta_table (upsert_all ks final_payload) of
              (Inl e, st1) \<Rightarrow> (Inl e, st1)
            | (Inr _, st1) \<Rightarrow> (Inr delta_table, st1)))"

text \<open>\<open>scd\<close>; \<open>row_number_uuid\<close> is the value \<open>uuid4().hex\<close> returns inside \<open>_scd1\<close>.
  A key given as one string is wrapped into a list on entry, so \<open>ks\<close> is the list.\<close>

definition scd :: "store \<Rightarrow> handle \<Rightarrow> frame \<Rightarrow> string list \<Rightarrow> string \<Rightarrow> string option \<Rightarrow> int
    \<Rightarrow> string \<Rightarrow> (error + handle) \<times> store" where
  "scd st delta_table source ks effective_ts end_ts scd_type row_number_uuid =
     (if scd_type = 2 then scd2 st delta_table source ks effective_ts end_ts
      else if scd_type = 1 then scd1 st delta_table source ks effective_ts row_number_uuid
      else (Inl (ValueError ''`scd_type` not of (1,2)''), st))"

section \<open>Bootstrap of a type-2 table\<close>

text \<open>
  \<open>DeltaTable.createOrReplace(...)...execute()\<close>: an empty table with the given schema, at
  the path when there is one and at the warehouse's place for the identifier otherwise,
  registered under the identifier when there is one.  Table properties and the comment
  describe the table and do not touch its rows; they are left out.
\<close>

definition create_or_replace :: "store \<Rightarrow> string list \<Rightarrow> string list \<Rightarrow> string option
    \<Rightarrow> string option \<Rightarrow> store" where
  "create_or_replace st schema partition_columns path table_identifier =
     (let l = (if \<not> falsy path then name_of path
               else warehouse st @ ''/'' @ name_of table_identifier);
          st1 = record_call (CreateOrReplace path table_identifier partition_columns) st;
          st2 = st1\<lparr>tables := (tables st1)(l \<mapsto> \<lparr>columns = schema, rows = []\<rparr>)\<rparr>
      in if \<not> falsy table_identifier
         then st2\<lparr>catalog := (catalog st2)(name_of table_identifier \<mapsto> l)\<rparr>
         else st2)"

text \<open>\<open>df.write.format('delta').option('mergeSchema', 'true').mode('append')\<close>: the table
  gains the columns it lacks.\<close>

definition append_mergeSchema :: "frame \<Rightarrow> frame option \<Rightarrow> frame" where
  "append_mergeSchema df t =
     (case t of None \<Rightarrow> unionByName \<lparr>columns = [], rows = []\<rparr> df
      | Some t' \<Rightarrow> unionByName t' df)"

definition saveAsTable :: "store \<Rightarrow> string \<Rightarrow> frame \<Rightarrow> store" where
  "saveAsTable st n df =
     (let st1 = record_call (SaveAsTable n) st;
          l = (case catalog st1 n of Some l' \<Rightarrow> l' | None \<Rightarrow> warehouse st1 @ ''/'' @ n)
      in st1\<lparr>tables := (tables st1)(l \<mapsto> append_mergeSchema df (tables st1 l)),
              catalog := (catalog st1)(n \<mapsto> l)\<rparr>)"

definition save_path :: "store \<Rightarrow> string \<Rightarrow> frame \<Rightarrow> store" where
  "save_path st p df =
     (let st1 = record_call (SavePath p) st
      in st1\<lparr>tables := (tables st1)(p \<mapsto> append_mergeSchema df (tables st1 p))\<rparr>)"

text \<open>\<open>bootstrap_scd2\<close>.  The window is built on the source before the table is created,
  so the keys and \<open>effective_ts\<close> must be columns of the source; otherwise Spark raises
  before any call to the store.\<close>

definition bootstrap_scd2 :: "store \<Rightarrow> frame \<Rightarrow> string list \<Rightarrow> string \<Rightarrow> string \<Rightarrow> string list
    \<Rightarrow> string option \<Rightarrow> string option \<Rightarrow> (error + handle option) \<times> store" where
  "bootstrap_scd2 st source_df ks effective_ts end_ts partition_columns path table_identifier =
     (if falsy path \<and> falsy table_identifier
      then (Inl (ValueError ''Need to specify one (or both) of `path` and `table_identifier`''), st)
      else if \<not> resolves (ks @ [effective_ts]) source_df then (Inl UnresolvedColumn, st)
      else
        (let w = \<lparr>partitionBy = ks, orderBy = [Asc effective_ts]\<rparr>;
             final_payload = withColumn_over end_ts (lead effective_ts) w source_df;
             st1 = create_or_replace st (columns source_df) partition_columns path table_identifier
         in if \<not> falsy table_identifier
            then (Inr (Some (ForName (name_of table_identifier))),
                  saveAsTable st1 (name_of table_identifier) final_payload)
            else if \<not> falsy path
            then (Inr (Some (ForPath (name_of path))), save_path st1 (name_of path) final_payload)
            else (Inr None, st1)))"

section \<open>Deduplication\<close>

text \<open>\<open>df.drop_duplicates(keys)\<close> keeps one row of each key, here the first.\<close>

fun drop_duplicates_rows :: "string list \<Rightarrow> cell list list \<Rightarrow> row list \<Rightarrow> row list" where
  "drop_duplicates_rows ks seen [] = []"
| "drop_duplicates_rows ks seen (r # rs) =
     (if key ks r \<in> set seen then drop_duplicates_rows ks seen rs
      else r # drop_duplicates_rows ks (key ks r # seen) rs)"

definition drop_duplicates :: "string list \<Rightarrow> frame \<Rightarrow> frame" where
  "drop_duplicates ks df = df\<lparr>rows := drop_duplicates_rows ks [] (rows df)\<rparr>"

text \<open>\<open>df.select(keys).distinct()\<close>.\<close>

definition select_distinct :: "string list \<Rightarrow> frame \<Rightarrow> frame" where
  "select_distinct ks df = \<lparr>columns = ks, rows = remdups (map (conform ks) (rows df))\<rparr>"

text \<open>\<open>F.col(c) > 1\<close>; a comparison with NULL is not true.\<close>

definition greater_than :: "string \<Rightarrow> int \<Rightarrow> row \<Rightarrow> bool" where
  "greater_than c n r = (case col r c of None \<Rightarrow> False | Some x \<Rightarrow> n < x)"

text \<open>\<open>df.write.format('delta').save(path)\<close>: the default mode refuses a path that is
  in use.\<close>

definition write_new :: "store \<Rightarrow> string \<Rightarrow> frame \<Rightarrow> (error + unit) \<times> store" where
  "write_new st p df =
     (let st1 = record_call (WriteNew p) st
      in case tables st1 p of
           Some _ \<Rightarrow> (Inl PathAlreadyExists, st1)
         | None \<Rightarrow> (Inr (), st1\<lparr>tables := (tables st1)(p \<mapsto> df)\<rparr>))"

definition read_location :: "store \<Rightarrow> string \<Rightarrow> (error + frame) \<times> store" where
  "read_location st p =
     (let st1 = record_call (ReadLocation p) st
      in case tables st1 p of
           None \<Rightarrow> (Inl NoSuchTable, st1)
         | Some t \<Rightarrow> (Inr t, st1))"

text \<open>\<open>df.write.format('delta').mode('append').save(location)\<close>: a column the table does
  not have is refused.\<close>

definition append :: "store \<Rightarrow> string \<Rightarrow> frame \<Rightarrow> (error + unit) \<times> store" where
  "append st l df =
     (let st1 = record_call (Append l) st
      in case tables st1 l of
           None \<Rightarrow> (Inr (), st1\<lparr>tables := (tables st1)(l \<mapsto> df)\<rparr>)
         | Some t \<Rightarrow>
             (if \<not> resolves (columns df) t then (Inl SchemaMismatch, st1)
              else (Inr (), st1\<lparr>tables :=
                      (tables st1)(l \<mapsto> t\<lparr>rows := rows t @ map (conform (columns t)) (rows df)\<rparr>)\<rparr>)))"

definition dupes_of :: "string list \<Rightarrow> string \<Rightarrow> frame \<Rightarrow> frame" where
  "dupes_of ks count_col df =
     drop_col count_col
       (where_rows (greater_than count_col 1)
          (withColumn_over count_col count_star \<lparr>partitionBy = ks, orderBy = []\<rparr> df))"

definition deduped_of :: "string list \<Rightarrow> string list \<Rightarrow> string \<Rightarrow> frame \<Rightarrow> frame" where
  "deduped_of ks tiebreaking_columns row_number_col dupes =
     (if tiebreaking_columns \<noteq> []
      then drop_col row_number_col
             (where_rows (\<lambda>r. col r row_number_col = Some 1)
                (withColumn_over row_number_col row_number
                   \<lparr>partitionBy = ks, orderBy = map Desc tiebreaking_columns\<rparr> dupes))
      else drop_duplicates ks dupes)"

text \<open>
  \<open>deduplicate\<close>; \<open>count_col\<close> and \<open>row_number_col\<close> are the values of the two
  \<open>uuid4().hex\<close> calls.  The location that \<open>detail\<close> reports is the storage location of
  the table.  The window over the keys is built on the table that is read and the window
  with the tie-breaking order on the duplicates, so the keys and the tie-breaking columns
  must be columns there; otherwise Spark raises before anything is written.
\<close>

definition deduplicate :: "store \<Rightarrow> handle \<Rightarrow> string \<Rightarrow> string list \<Rightarrow> string list option
    \<Rightarrow> string \<Rightarrow> string \<Rightarrow> (error + handle) \<times> store" where
  "deduplicate st delta_table temp_path ks tiebreaking count_col row_number_col =
     (let tiebreaking_columns = (case tiebreaking of None \<Rightarrow> [] | Some cs \<Rightarrow> cs)
      in case locate st delta_table of
           None \<Rightarrow> (Inl NoSuchTable, st)
         | Some target_location \<Rightarrow>
             (case toDF (record_call (Detail target_location) st) delta_table of
                (Inl e, st1) \<Rightarrow> (Inl e, st1)
              | (Inr df, st1) \<Rightarrow>
                  if \<not> resolves ks df then (Inl UnresolvedColumn, st1)
                  else
                    (let dupes = dupes_of ks count_col df
                     in if \<not> resolves tiebreaking_columns dupes then (Inl UnresolvedColumn, st1)
                        else
                          (let staged = deduped_of ks tiebreaking_columns row_number_col dupes
                           in case write_new st1 temp_path staged of
                                (Inl e, st2) \<Rightarrow> (Inl e, st2)
                              | (Inr _, st2) \<Rightarrow>
                                  (case execute_merge st2 delta_table
                                          (delete_matched ks (select_distinct ks dupes)) of
                                     (Inl e, st3) \<Rightarrow> (Inl e, st3)
                                   | (Inr _, st3) \<Rightarrow>
                                       (case read_location st3 temp_path of
                                          (Inl e, st4) \<Rightarrow> (Inl e, st4)
                                        | (Inr survivors, st4) \<Rightarrow>
                                            (case append st4 target_location survivors of
                                               (Inl e, st5) \<Rightarrow> (Inl e, st5)
                                             | (Inr _, st5) \<Rightarrow> (Inr delta_table, st5))))))))"

section \<open>Table details\<close>

text \<open>The row that \<open>delta_table.detail()\<close> returns.\<close>

record detail_row =
  createdAt :: int
  description :: "string option"
  format :: string
  id :: string
  lastModified :: int
  location :: string
  minReaderVersion :: int
  minWriterVersion :: int
  name :: "string option"
  numFiles :: int
  partitionColumns :: "string list"
  properties :: "(string \<times> string) list"
  sizeInBytes :: int

datatype pyval =
    PyNone
  | PyInt int
  | PyStr string
  | PyList "string list"
  | PyDict "(string \<times> string) list"

definition py_opt :: "string option \<Rightarrow> pyval" where
  "py_opt s = (case s of None \<Rightarrow> PyNone | Some x \<Rightarrow> PyStr x)"

text \<open>A \<open>DetailOutput\<close> object is its attribute dictionary.\<close>

type_synonym DetailOutput = "(string \<times> pyval) list"

definition getattr :: "DetailOutput \<Rightarrow> string \<Rightarrow> pyval" where
  "getattr self a = (case map_of self a of None \<Rightarrow> PyNone | Some v \<Rightarrow> v)"

definition setattr :: "string \<Rightarrow> pyval \<Rightarrow> DetailOutput \<Rightarrow> DetailOutput" where
  "setattr a v self =
     (if a \<in> set (map fst self) then map (\<lambda>(k, x). if k = a then (k, v) else (k, x)) self
      else self @ [(a, v)])"

definition DetailOutput_init :: "detail_row \<Rightarrow> DetailOutput" where
  "DetailOutput_init d =
     [(''created_at'', PyInt (createdAt d)),
      (''description'', py_opt (description d)),
      (''format'', PyStr (format d)),
      (''id'', PyStr (id d)),
      (''last_modified'', PyInt (lastModified d)),
      (''location'', PyStr (location d)),
      (''min_reader_version'', PyInt (minReaderVersion d)),
      (''min_writer_version'', PyInt (minWriterVersion d)),
      (''name'', py_opt (name d)),
      (''num_files'', PyInt (numFiles d)),
      (''partition_columns'', PyList (partitionColumns d)),
      (''properties'', PyDict (properties d)),
      (''size'', PyInt (sizeInBytes d))]"

text \<open>
  \<open>_humanize_number\<close> and \<open>_humanize_bytes\<close> come from the package's \<open>__init__\<close>; they
  are parameters here, from the attribute's value to the string.
\<close>

definition humanize :: "(pyval \<Rightarrow> string) \<Rightarrow> (pyval \<Rightarrow> string) \<Rightarrow> DetailOutput \<Rightarrow> DetailOutput" where
  "humanize humanize_number humanize_bytes self =
     (let self1 = setattr ''num_files'' (PyStr (humanize_number (getattr self ''num_files''))) self
      in setattr ''size'' (PyStr (humanize_bytes (getattr self1 ''size''))) self1)"

definition to_dict :: "DetailOutput \<Rightarrow> (string \<times> pyval) list" where
  "to_dict self = self"

definition detail :: "(pyval \<Rightarrow> string) \<Rightarrow> (pyval \<Rightarrow> string) \<Rightarrow> detail_row \<Rightarrow> (string \<times> pyval) list" where
  "detail humanize_number humanize_bytes d =
     to_dict (humanize humanize_number humanize_bytes (DetailOutput_init d))"

section \<open>Configuration errors\<close>

text \<open>The \<open>ValueError\<close> that \<open>scd\<close> and \<open>bootstrap_scd2\<close> raise is the configuration
  error of the specification.\<close>

fun is_ValueError :: "error \<Rightarrow> bool" where
  "is_ValueError (ValueError m) = True"
| "is_ValueError _ = False"

definition raises_ValueError :: "error + 'a \<Rightarrow> bool" where
  "raises_ValueError r = (case r of Inl e \<Rightarrow> is_ValueError e | Inr _ \<Rightarrow> False)"

section \<open>Scenarios\<close>

definition scenario_A_source :: frame where
  "scenario_A_source =
     \<lparr>columns = [''id'', ''ts''],
      rows = [[(''id'', Some 1), (''ts'', Some 1)], [(''id'', Some 1), (''ts'', Some 2)]]\<rparr>"

definition scenario_A_store :: store where
  "scenario_A_store =
     \<lparr>tables = [''/t'' \<mapsto> \<lparr>columns = [''id'', ''ts'', ''end''], rows = []\<rparr>],
      catalog = Map.empty, warehouse = ''/warehouse'', conflicts = 0, calls = []\<rparr>"

definition scenario_detail_row :: detail_row where
  "scenario_detail_row =
     \<lparr>createdAt = 1000, description = None, format = ''delta'', id = ''a1'',
      lastModified = 2000, location = ''/t'', minReaderVersion = 1, minWriterVersion = 2,
      name = None, numFiles = 7, partitionColumns = [], properties = [],
      sizeInBytes = 2048\<rparr>"

text \<open>What the two renderers return for the scenario's file count and size.\<close>

definition scenario_humanize_number :: "pyval \<Rightarrow> string" where
  "scenario_humanize_number v = ''7''"

definition scenario_humanize_bytes :: "pyval \<Rightarrow> string" where
  "scenario_humanize_bytes v = ''2.00 KiB''"

text \<open>The record carries the number \<open>n\<close> in one of its fields.\<close>

definition carries_number :: "(string \<times> pyval) list \<Rightarrow> int \<Rightarrow> bool" where
  "carries_number dict n = list_ex (\<lambda>p. snd p = PyInt n) dict"

text \<open>A table with two rows whose key is NULL.\<close>

definition null_key_store :: store where
  "null_key_store =
     \<lparr>tables = [''/t'' \<mapsto> \<lparr>columns = [''id'', ''ts''],
                           rows = [[(''id'', None), (''ts'', Some 1)],
                                   [(''id'', None), (''ts'', Some 2)]]\<rparr>],
      catalog = Map.empty, warehouse = ''/warehouse'', conflicts = 0, calls = []\<rparr>"

text \<open>Scenario C: a table with two rows of key 0.\<close>

definition scenario_C_store :: store where
  "scenario_C_store =
     \<lparr>tables = [''/t'' \<mapsto> \<lparr>columns = [''id'', ''ts''],
                           rows = [[(''id'', Some 0), (''ts'', Some 1)],
                                   [(''id'', Some 0), (''ts'', Some 2)]]\<rparr>],
      catalog = Map.empty, warehouse = ''/warehouse'', conflicts = 0, calls = []\<rparr>"

text \<open>A table without duplicates.\<close>

definition unique_key_store :: store where
  "unique_key_store =
     \<lparr>tables = [''/t'' \<mapsto> \<lparr>columns = [''id'', ''ts''],
                           rows = [[(''id'', Some 0), (''ts'', Some 1)],
                                   [(''id'', Some 5), (''ts'', Some 2)]]\<rparr>],
      catalog = Map.empty, warehouse = ''/warehouse'', conflicts = 0, calls = []\<rparr>"

section \<open>Well-formed batches\<close>

text \<open>Every row of a frame has the columns of the schema, in its order.\<close>

definition wf_frame :: "frame \<Rightarrow> bool" where
  "wf_frame df = list_all (\<lambda>r. map fst r = columns df) (rows df)"

text \<open>No row has NULL in a key column.\<close>

definition non_null_keys :: "string list \<Rightarrow> row list \<Rightarrow> bool" where
  "non_null_keys ks rs = list_all (\<lambda>r. None \<notin> set (key ks r)) rs"

text \<open>No two rows share key and \<open>effective_ts\<close>.\<close>

definition no_ties :: "string list \<Rightarrow> string \<Rightarrow> row list \<Rightarrow> bool" where
  "no_ties ks effective_ts rs = distinct (map (\<lambda>r. (key ks r, col r effective_ts)) rs)"

text \<open>The same rows under the same schema, in whatever order: a DataFrame does not fix
  the order in which its rows reach a window.\<close>

definition same_batch :: "frame \<Rightarrow> frame \<Rightarrow> bool" where
  "same_batch a b =
     (columns b = columns a \<and> set (rows b) = set (rows a) \<and> distinct (rows b))"

text \<open>Scenario B and the same batch in the other order, a batch of one row whose key is
  NULL, and a batch of two rows with the same key and \<open>effective_ts\<close>, in both orders.\<close>

definition scenario_B_reordered :: frame where
  "scenario_B_reordered =
     \<lparr>columns = [''id'', ''ts'', ''val''],
      rows = [[(''id'', Some 1), (''ts'', Some 2), (''val'', Some 20)],
              [(''id'', Some 1), (''ts'', Some 1), (''val'', Some 10)]]\<rparr>"

definition tie_source :: frame where
  "tie_source =
     \<lparr>columns = [''id'', ''ts'', ''val''],
      rows = [[(''id'', Some 1), (''ts'', Some 1), (''val'', Some 10)],
              [(''id'', Some 1), (''ts'', Some 1), (''val'', Some 20)]]\<rparr>"

definition tie_source_reordered :: frame where
  "tie_source_reordered =
     \<lparr>columns = [''id'', ''ts'', ''val''],
      rows = [[(''id'', Some 1), (''ts'', Some 1), (''val'', Some 20)],
              [(''id'', Some 1), (''ts'', Some 1), (''val'', Some 10)]]\<rparr>"


definition scenario_B_source :: frame where
  "scenario_B_source =
     \<lparr>columns = [''id'', ''ts'', ''val''],
      rows = [[(''id'', Some 1), (''ts'', Some 1), (''val'', Some 10)],
              [(''id'', Some 1), (''ts'', Some 2), (''val'', Some 20)]]\<rparr>"

definition scenario_B_store :: store where
  "scenario_B_store =
     \<lparr>tables = [''/t'' \<mapsto> \<lparr>columns = [''id'', ''ts'', ''val''], rows = []\<rparr>],
      catalog = Map.empty, warehouse = ''/warehouse'', conflicts = 0, calls = []\<rparr>"

definition null_key_source :: frame where
  "null_key_source =
     \<lparr>columns = [''id'', ''ts'', ''val''],
      rows = [[(''id'', None), (''ts'', Some 1), (''val'', Some 10)]]\<rparr>"

section \<open>Validity intervals\<close>

text \<open>
  Invariant I1: the rows of one key, ordered by \<open>effective_ts\<close>, carry intervals of which
  each ends where the next starts, and exactly one of them is open (\<open>end_ts\<close> is NULL).
\<close>

definition history :: "string list \<Rightarrow> string \<Rightarrow> cell list \<Rightarrow> row list \<Rightarrow> row list" where
  "history ks effective_ts k rs = sort_rows [Asc effective_ts] (filter (\<lambda>r. key ks r = k) rs)"

definition intervals :: "string \<Rightarrow> string \<Rightarrow> row list \<Rightarrow> (cell \<times> cell) list" where
  "intervals effective_ts end_ts rs = map (\<lambda>r. (col r effective_ts, col r end_ts)) rs"

fun consecutive :: "(cell \<times> cell) list \<Rightarrow> bool" where
  "consecutive (a # b # ivs) = (snd a = fst b \<and> consecutive (b # ivs))"
| "consecutive ivs = True"

definition tiles :: "(cell \<times> cell) list \<Rightarrow> bool" where
  "tiles ivs = (consecutive ivs \<and> length (filter (\<lambda>iv. snd iv = None) ivs) = 1)"

definition I1 :: "string list \<Rightarrow> string \<Rightarrow> string \<Rightarrow> row list \<Rightarrow> bool" where
  "I1 ks effective_ts end_ts rs =
     list_all (\<lambda>k. tiles (intervals effective_ts end_ts (history ks effective_ts k rs)))
       (remdups (map (key ks) rs))"

text \<open>Every row has an \<open>effective_ts\<close>, and no two rows share key and
  \<open>effective_ts\<close>.\<close>

definition versions_ok :: "string list \<Rightarrow> string \<Rightarrow> row list \<Rightarrow> bool" where
  "versions_ok ks effective_ts rs =
     (list_all (\<lambda>r. col r effective_ts \<noteq> None) rs
      \<and> distinct (map (\<lambda>r. (key ks r, col r effective_ts)) rs))"

text \<open>Every row of the batch is later than every row the table has for its key.\<close>

definition arrives_later :: "string list \<Rightarrow> string \<Rightarrow> row list \<Rightarrow> row list \<Rightarrow> bool" where
  "arrives_later ks effective_ts batch rs =
     list_all (\<lambda>b. list_all (\<lambda>r. key ks r \<noteq> key ks b \<or> col r effective_ts < col b effective_ts) rs)
       batch"


text \<open>The rows that the window of the type-2 merge writes for one ordered partition,
  laid out in the schema \<open>cs\<close>.\<close>

definition lead_rows :: "string list \<Rightarrow> string \<Rightarrow> string \<Rightarrow> row list \<Rightarrow> row list" where
  "lead_rows cs effective_ts end_ts xs =
     map2 (set_col end_ts) (lead effective_ts xs) (map (conform cs) xs)"


text \<open>A table that holds a closed and an open interval of key 1, a batch that falls
  between them, and a batch that comes after them.\<close>

definition holds_I1 :: "string list \<Rightarrow> string \<Rightarrow> string \<Rightarrow> frame option \<Rightarrow> bool" where
  "holds_I1 ks effective_ts end_ts t =
     (case t of None \<Rightarrow> False | Some t' \<Rightarrow> I1 ks effective_ts end_ts (rows t'))"

definition holds_versions :: "string list \<Rightarrow> string \<Rightarrow> frame option \<Rightarrow> bool" where
  "holds_versions ks effective_ts t =
     (case t of None \<Rightarrow> False | Some t' \<Rightarrow> versions_ok ks effective_ts (rows t'))"

definition history_store :: store where
  "history_store =
     \<lparr>tables = [''/t'' \<mapsto> \<lparr>columns = [''id'', ''ts'', ''end''],
                           rows = [[(''id'', Some 1), (''ts'', Some 1), (''end'', Some 5)],
                                   [(''id'', Some 1), (''ts'', Some 5), (''end'', None)]]\<rparr>],
      catalog = Map.empty, warehouse = ''/warehouse'', conflicts = 0, calls = []\<rparr>"

definition middle_source :: frame where
  "middle_source = \<lparr>columns = [''id'', ''ts''], rows = [[(''id'', Some 1), (''ts'', Some 3)]]\<rparr>"

definition later_source :: frame where
  "later_source =
     \<lparr>columns = [''id'', ''ts''],
      rows = [[(''id'', Some 1), (''ts'', Some 9)],
              [(''id'', Some 1), (''ts'', Some 7)],
              [(''id'', Some 2), (''ts'', Some 7)]]\<rparr>"


section \<open>The table behind a handle\<close>




section \<open>The store, step by step\<close>

lemma locate_record_call [simp]: "locate (record_call c st) h = locate st h"
  by (simp add: locate_def record_call_def split: handle.splits)

lemma record_call_fields [simp]:
  "tables (record_call c st) = tables st" "conflicts (record_call c st) = conflicts st"
  "calls (record_call c st) = calls st @ [c]" "catalog (record_call c st) = catalog st"
  "warehouse (record_call c st) = warehouse st"
  by (simp_all add: record_call_def)

lemma toDF_Some:
  "locate st h = Some l \<Longrightarrow> tables st l = Some t \<Longrightarrow>
     toDF st h = (Inr t, record_call (ReadSnapshot l) st)"
  by (simp add: toDF_def)

lemma execute_merge_conflict:
  "0 < conflicts st \<Longrightarrow> locate st h = Some l \<Longrightarrow> tables st l = Some t \<Longrightarrow>
     action t = Inr t' \<Longrightarrow>
     execute_merge st h action
       = (Inl ConflictError, (record_call (Merge l) st)\<lparr>conflicts := conflicts st - 1\<rparr>)"
  by (simp add: execute_merge_def Let_def)

lemma execute_merge_ok:
  "conflicts st = 0 \<Longrightarrow> locate st h = Some l \<Longrightarrow> tables st l = Some t \<Longrightarrow>
     action t = Inr t' \<Longrightarrow>
     execute_merge st h action
       = (Inr (), (record_call (Merge l) st)\<lparr>tables := (tables st)(l \<mapsto> t')\<rparr>)"
  by (simp add: execute_merge_def Let_def)

lemma raises_ValueError_simps [simp]:
  "raises_ValueError (Inl e) = is_ValueError e" "raises_ValueError (Inr x) = False"
  by (simp_all add: raises_ValueError_def)

lemma toDF_not_ValueError: "toDF st h = (Inl e, st1) \<Longrightarrow> \<not> is_ValueError e"
  by (auto simp: toDF_def split: option.splits)

lemma execute_merge_upsert_not_ValueError:
  "execute_merge st h (upsert_all ks src) = (Inl e, st1) \<Longrightarrow> \<not> is_ValueError e"
  by (auto simp: execute_merge_def upsert_all_def Let_def split: option.splits if_splits)

lemma scd1_not_ValueError: "\<not> raises_ValueError (fst (scd1 st h src ks ets u))"
  by (auto simp: scd1_def Let_def split: prod.splits sum.splits
           dest: execute_merge_upsert_not_ValueError)

lemma scd2_ValueError_iff: "raises_ValueError (fst (scd2 st h src ks ets e)) = falsy e"
  by (auto simp: scd2_def Let_def split: prod.splits sum.splits
           dest: execute_merge_upsert_not_ValueError toDF_not_ValueError)

section \<open>Rows, columns and windows\<close>

lemma map_of_replace_same:
  "map_of (map (\<lambda>(k, x). if k = c then (k, v) else (k, x)) r) c
     = (case map_of r c of None \<Rightarrow> None | Some _ \<Rightarrow> Some v)"
  by (induction r) auto

lemma map_of_replace_other:
  "c' \<noteq> c \<Longrightarrow> map_of (map (\<lambda>(k, x). if k = c then (k, v) else (k, x)) r) c' = map_of r c'"
  by (induction r) auto

lemma map_of_set_col: "map_of (set_col c v r) c' = (if c' = c then Some v else map_of r c')"
proof (cases "c \<in> set (map fst r)")
  case True
  then obtain y where "map_of r c = Some y"
    by (metis list.set_map map_of_eq_None_iff not_Some_eq)
  with True show ?thesis
    by (simp add: set_col_def map_of_replace_same map_of_replace_other)
next
  case False
  then have "map_of r c = None"
    by (simp add: map_of_eq_None_iff)
  with False show ?thesis
    by (simp add: set_col_def map_add_def split: option.splits)
qed

lemma col_set_col [simp]: "col (set_col c v r) c' = (if c' = c then v else col r c')"
  by (simp add: col_def map_of_set_col)

lemma col_conform [simp]: "col (conform cs r) c = (if c \<in> set cs then col r c else None)"
proof -
  have "map_of (map (\<lambda>c. (c, col r c)) cs) c = (if c \<in> set cs then Some (col r c) else None)"
    by (induction cs) auto
  then show ?thesis by (simp add: col_def conform_def)
qed

lemma filter_same_key:
  "distinct (map f xs) \<Longrightarrow> x \<in> set xs \<Longrightarrow> filter (\<lambda>y. f y = f x) xs = [x]"
proof (induction xs)
  case Nil
  then show ?case by simp
next
  case (Cons a xs)
  have none: "filter (\<lambda>y. f y = f a) xs = []" if "f a \<notin> f ` set xs"
  proof -
    have "f y \<noteq> f a" if "y \<in> set xs" for y
      using that \<open>f a \<notin> f ` set xs\<close> by (metis imageI)
    then show ?thesis by (simp add: filter_empty_conv)
  qed
  from Cons show ?case
    by (auto simp: none image_iff)
qed

lemma partitions_distinct:
  assumes "distinct (map (key ks) rs)"
  shows "partitions ks rs = map (\<lambda>r. [r]) rs"
proof -
  have r1: "remdups (map (key ks) rs) = map (key ks) rs"
    using assms by (rule distinct_remdups_id)
  have "map (\<lambda>k. filter (\<lambda>r. key ks r = k) rs) (map (key ks) rs) = map (\<lambda>r. [r]) rs"
    using filter_same_key [OF assms] by simp
  then show ?thesis
    unfolding partitions_def r1 .
qed

lemma dupes_of_distinct:
  assumes "distinct (map (key ks) (rows df))"
  shows "rows (dupes_of ks count_col df) = []"
proof -
  have "rows (withColumn_over count_col count_star \<lparr>partitionBy = ks, orderBy = []\<rparr> df)
          = map (set_col count_col (Some 1)) (rows df)"
    by (simp add: withColumn_over_def partitions_distinct [OF assms] sort_rows_def
          count_star_def comp_def)
  then show ?thesis
    by (simp add: dupes_of_def drop_col_def where_rows_def greater_than_def filter_empty_conv)
qed

lemma key_conform: "set ks \<subseteq> set cs \<Longrightarrow> key ks (conform cs r) = key ks r"
  by (auto simp: key_def)


lemma fst_conform [simp]: "map fst (conform cs r) = cs"
  by (simp add: conform_def comp_def)



lemma insort_key_map: "insort_key g (f x) (map f xs) = map f (insort_key (\<lambda>y. g (f y)) x xs)"
  by (induction xs) auto

lemma sort_key_map: "sort_key g (map f xs) = map f (sort_key (\<lambda>y. g (f y)) xs)"
  by (induction xs) (auto simp: insort_key_map)

lemma sort_rows_map:
  assumes "\<And>r ob. ob \<in> set os \<Longrightarrow> ord_key ob (f r) = ord_key ob r"
  shows "sort_rows os (map f rs) = map f (sort_rows os rs)"
proof -
  have "(\<lambda>y. map (\<lambda>ob. ord_key ob (f y)) os) = (\<lambda>y. map (\<lambda>ob. ord_key ob y) os)"
    using assms by (auto simp: fun_eq_iff)
  then show ?thesis by (simp add: sort_rows_def sort_key_map)
qed


lemma lead_map:
  assumes "\<And>r. col (f r) c = col r c"
  shows "lead c (map f rs) = lead c rs"
  using assms by (induction c rs rule: lead.induct) auto



section \<open>Deduplication of a table without duplicates\<close>

lemma columns_dupes_of: "set (columns (dupes_of ks cc df)) \<subseteq> set (columns df)"
  by (auto simp: dupes_of_def drop_col_def where_rows_def withColumn_over_def add_column_def)

lemma columns_deduped_of: "set (columns (deduped_of ks tb rn d)) \<subseteq> set (columns d)"
  by (auto simp: deduped_of_def drop_col_def where_rows_def withColumn_over_def add_column_def
        drop_duplicates_def)

lemma rows_deduped_of_empty: "rows d = [] \<Longrightarrow> rows (deduped_of ks tb rn d) = []"
  by (simp add: deduped_of_def drop_col_def where_rows_def withColumn_over_def partitions_def
        drop_duplicates_def)

lemma resolves_subset: "resolves cs df = (set cs \<subseteq> set (columns df))"
  by (auto simp: resolves_def list_all_iff)

lemma set_columns_dupes_of: "set (columns (dupes_of ks cc df)) = set (columns df) - {cc}"
  by (auto simp: dupes_of_def drop_col_def where_rows_def withColumn_over_def add_column_def)


text \<open>
  C10.  On a table in which no key value occurs twice, \<open>deduplicate\<close> goes through all its
  steps and leaves the table as it was: the set of duplicates is empty, the delete removes
  nothing and the append adds nothing; the empty staged dataset is written to
  \<open>temp_path\<close>.  The keys and the tie-breaking columns, when there are any, are columns of
  the table (and none of them is the temporary count column), the temporary path is free
  and the commit does not conflict.
\<close>

theorem deduplicate_without_duplicates:
  assumes loc: "locate st h = Some l" and tab: "tables st l = Some t"
    and free: "tables st temp_path = None" and quiet: "conflicts st = 0"
    and cols: "set ks \<subseteq> set (columns t)"
    and tcols: "set (case tb of None \<Rightarrow> [] | Some cs \<Rightarrow> cs) \<subseteq> set (columns t) - {cc}"
    and uniq: "distinct (map (key ks) (rows t))"
  shows "fst (deduplicate st h temp_path ks tb cc rn) = Inr h
    \<and> tables (snd (deduplicate st h temp_path ks tb cc rn)) l = Some t
    \<and> map_option rows (tables (snd (deduplicate st h temp_path ks tb cc rn)) temp_path) = Some []
    \<and> calls (snd (deduplicate st h temp_path ks tb cc rn))
        = calls st @ [Detail l, ReadSnapshot l, WriteNew temp_path, Merge l,
                      ReadLocation temp_path, Append l]"
proof -
  define tbc where "tbc = (case tb of None \<Rightarrow> [] | Some cs \<Rightarrow> cs)"
  define dupes where "dupes = dupes_of ks cc t"
  define staged where "staged = deduped_of ks tbc rn dupes"
  have ne: "temp_path \<noteq> l" using tab free by auto
  have d0: "rows dupes = []" unfolding dupes_def using uniq by (rule dupes_of_distinct)
  have s0: "rows staged = []" unfolding staged_def using d0 by (rule rows_deduped_of_empty)
  have sc: "set (columns staged) \<subseteq> set (columns t)"
    unfolding staged_def dupes_def using columns_deduped_of columns_dupes_of by blast
  define st1 where "st1 = record_call (ReadSnapshot l) (record_call (Detail l) st)"
  have r1: "toDF (record_call (Detail l) st) h = (Inr t, st1)"
    unfolding st1_def using loc tab by (simp add: toDF_Some)
  define st2 where "st2 = (record_call (WriteNew temp_path) st1)\<lparr>tables := (tables st)(temp_path \<mapsto> staged)\<rparr>"
  have r2: "write_new st1 temp_path staged = (Inr (), st2)"
    unfolding st2_def st1_def using free by (simp add: write_new_def Let_def)
  have del: "delete_matched ks (select_distinct ks dupes) t = Inr t"
    using cols d0 by (simp add: delete_matched_def resolves_subset select_distinct_def)
  define st3 where "st3 = (record_call (Merge l) st2)\<lparr>tables := (tables st2)(l \<mapsto> t)\<rparr>"
  have r3: "execute_merge st2 h (delete_matched ks (select_distinct ks dupes)) = (Inr (), st3)"
  proof -
    have "conflicts st2 = 0" "locate st2 h = Some l" "tables st2 l = Some t"
      using loc tab quiet ne by (simp_all add: st2_def st1_def locate_def split: handle.splits)
    then show ?thesis
      unfolding st3_def using del
      by (rule execute_merge_ok [where action = "delete_matched ks (select_distinct ks dupes)"])
  qed
  define st4 where "st4 = record_call (ReadLocation temp_path) st3"
  have r4: "read_location st3 temp_path = (Inr staged, st4)"
    unfolding st4_def using ne by (simp add: read_location_def Let_def st3_def st2_def)
  define st5 where "st5 = (record_call (Append l) st4)\<lparr>tables := (tables st4)(l \<mapsto> t)\<rparr>"
  have r5: "append st4 l staged = (Inr (), st5)"
    unfolding st5_def using sc s0
    by (simp add: append_def Let_def st4_def st3_def resolves_subset)
  have rk: "resolves ks t" using cols by (simp add: resolves_subset)
  have rt: "resolves tbc dupes"
    using tcols by (simp add: resolves_subset dupes_def tbc_def set_columns_dupes_of)
  have "deduplicate st h temp_path ks tb cc rn = (Inr h, st5)"
    using loc r1 r2 r3 r4 r5 rk rt
    by (simp add: deduplicate_def Let_def tbc_def [symmetric] dupes_def [symmetric]
          staged_def [symmetric])
  moreover have "tables st5 l = Some t"
    by (simp add: st5_def)
  moreover have "tables st5 temp_path = Some staged"
    using ne by (simp add: st5_def st4_def st3_def st2_def)
  moreover have "calls st5
      = calls st @ [Detail l, ReadSnapshot l, WriteNew temp_path, Merge l,
                    ReadLocation temp_path, Append l]"
    by (simp add: st5_def st4_def st3_def st2_def st1_def)
  ultimately show ?thesis using s0 by simp
qed

theorem deduplicate_without_duplicates_witness:
  "fst (deduplicate unique_key_store (ForPath ''/t'') ''/tmp'' [''id''] (Some [''ts'']) ''c'' ''r'')
     = Inr (ForPath ''/t'')
   \<and> tables (snd (deduplicate unique_key_store (ForPath ''/t'') ''/tmp'' [''id''] (Some [''ts''])
                     ''c'' ''r'')) ''/t''
     = Some \<lparr>columns = [''id'', ''ts''],
             rows = [[(''id'', Some 0), (''ts'', Some 1)], [(''id'', Some 5), (''ts'', Some 2)]]\<rparr>
   \<and> map_option rows
       (tables (snd (deduplicate unique_key_store (ForPath ''/t'') ''/tmp'' [''id'']
                       (Some [''ts'']) ''c'' ''r'')) ''/tmp'') = Some []"
  using deduplicate_without_duplicates [of unique_key_store "ForPath ''/t''" "''/t''"
      "\<lparr>columns = [''id'', ''ts''],
        rows = [[(''id'', Some 0), (''ts'', Some 1)], [(''id'', Some 5), (''ts'', Some 2)]]\<rparr>"
      "''/tmp''" "[''id'']" "Some [''ts'']" "''c''" "''r''"]
  by (simp add: unique_key_store_def locate_def key_def col_def)

text \<open>When a key or a tie-breaking column is not a column of the table, \<open>deduplicate\<close>
  raises after it has read the table: nothing is written, neither to \<open>temp_path\<close> nor to
  the table.\<close>

lemma deduplicate_unresolved_column:
  assumes loc: "locate st h = Some l" and tab: "tables st l = Some t"
    and bad: "\<not> (set ks \<subseteq> set (columns t)
               \<and> set (case tb of None \<Rightarrow> [] | Some cs \<Rightarrow> cs) \<subseteq> set (columns t) - {cc})"
  shows "fst (deduplicate st h temp_path ks tb cc rn) = Inl UnresolvedColumn
    \<and> tables (snd (deduplicate st h temp_path ks tb cc rn)) = tables st
    \<and> calls (snd (deduplicate st h temp_path ks tb cc rn)) = calls st @ [Detail l, ReadSnapshot l]"
proof -
  have r1: "toDF (record_call (Detail l) st) h
      = (Inr t, record_call (ReadSnapshot l) (record_call (Detail l) st))"
    using loc tab by (simp add: toDF_Some)
  show ?thesis
    using loc bad
    by (auto simp: deduplicate_def r1 Let_def resolves_subset set_columns_dupes_of)
qed

section \<open>Deduplication and NULL keys\<close>

text \<open>
  C3 at a table with two rows of key NULL, keys \<open>[id]\<close> and tie-break \<open>[ts]\<close>: the two rows
  are found as duplicates and the row with the larger \<open>ts\<close> is staged, the delete matches
  neither row, and the staged row is appended, so that the key is in three rows afterwards.
\<close>

theorem deduplicate_null_key_three_rows:
  "fst (deduplicate null_key_store (ForPath ''/t'') ''/tmp'' [''id''] (Some [''ts'']) ''c'' ''r'')
     = Inr (ForPath ''/t'')
   \<and> tables (snd (deduplicate null_key_store (ForPath ''/t'') ''/tmp'' [''id''] (Some [''ts''])
                     ''c'' ''r'')) ''/t''
     = Some \<lparr>columns = [''id'', ''ts''],
             rows = [[(''id'', None), (''ts'', Some 1)],
                     [(''id'', None), (''ts'', Some 2)],
                     [(''id'', None), (''ts'', Some 2)]]\<rparr>"
  by code_simp

text \<open>
  Scenario C, where the duplicated key is not NULL: both rows are deleted and the staged
  row, the one with the larger \<open>ts\<close>, is appended.
\<close>

lemma scenario_C_one_row:
  "fst (deduplicate scenario_C_store (ForPath ''/t'') ''/tmp'' [''id''] (Some [''ts'']) ''c'' ''r'')
     = Inr (ForPath ''/t'')
   \<and> tables (snd (deduplicate scenario_C_store (ForPath ''/t'') ''/tmp'' [''id''] (Some [''ts''])
                     ''c'' ''r'')) ''/t''
     = Some \<lparr>columns = [''id'', ''ts''], rows = [[(''id'', Some 0), (''ts'', Some 2)]]\<rparr>"
  by code_simp

section \<open>Bootstrap is the type-2 merge into an empty table\<close>

lemma add_column_union:
  "cs @ filter (\<lambda>c. c \<notin> set cs) (add_column e cs) = add_column e cs"
  by (simp add: add_column_def)


lemma columns_withColumn_over [simp]:
  "columns (withColumn_over c fn w df) = add_column c (columns df)"
  by (simp add: withColumn_over_def)

lemma set_add_column [simp]: "set (add_column c cs) = insert c (set cs)"
  by (auto simp: add_column_def)







section \<open>Type-1 merge\<close>

lemma key_set_col: "c \<notin> set ks \<Longrightarrow> key ks (set_col c v r) = key ks r"
  by (auto simp: key_def)

lemma concat_map_if_distinct:
  "distinct xs \<Longrightarrow> concat (map (\<lambda>x. if x = k then g x else []) xs) = (if k \<in> set xs then g k else [])"
  by (induction xs) auto

lemma filter_all_or_nothing:
  "(\<And>x. x \<in> set xs \<Longrightarrow> f x = k') \<Longrightarrow> filter (\<lambda>x. f x = k) xs = (if k' = k then xs else [])"
  by (induction xs) auto

lemma set_map2_subset: "x \<in> set (map2 g vs xs) \<Longrightarrow> \<exists>v y. y \<in> set xs \<and> x = g v y"
  by (auto dest: set_zip_rightD)

lemma set_sort_rows [simp]: "set (sort_rows os rs) = set rs"
  by (simp add: sort_rows_def)

lemma distinct_map_if_filter_le1:
  "(\<And>k. length (filter (\<lambda>x. f x = k) xs) \<le> 1) \<Longrightarrow> distinct (map f xs)"
proof (induction xs)
  case Nil
  then show ?case by simp
next
  case (Cons a xs)
  have "length (filter (\<lambda>x. f x = k) xs) \<le> 1" for k
    using Cons.prems [of k] by (simp split: if_splits)
  then have "distinct (map f xs)" by (rule Cons.IH)
  moreover have "f a \<notin> f ` set xs"
  proof
    assume "f a \<in> f ` set xs"
    then obtain y where "y \<in> set xs" "f y = f a" by auto
    then have "filter (\<lambda>x. f x = f a) xs \<noteq> []" by (auto simp: filter_empty_conv)
    then have "0 < length (filter (\<lambda>x. f x = f a) xs)" by simp
    with Cons.prems [of "f a"] show False by simp
  qed
  ultimately show ?case by simp
qed

lemma matches_iff_key:
  assumes "None \<notin> set (key ks s)"
  shows "matches ks s t = (key ks s = key ks t)"
proof -
  have "None \<notin> set (map (col s) ks) \<Longrightarrow>
        list_all (\<lambda>k. col s k \<noteq> None \<and> col s k = col t k) ks = (map (col s) ks = map (col t) ks)"
    by (induction ks) auto
  with assms show ?thesis by (simp add: matches_def key_def)
qed

lemma matches_key: "matches ks s t \<Longrightarrow> key ks s = key ks t"
  by (auto simp: matches_def key_def list_all_iff)

lemma filter_key_le1:
  assumes "distinct (map f xs)"
  shows "filter (\<lambda>y. f y = k) xs = [] \<or> (\<exists>x \<in> set xs. f x = k \<and> filter (\<lambda>y. f y = k) xs = [x])"
proof (cases "k \<in> f ` set xs")
  case True
  then obtain x where "x \<in> set xs" "f x = k" by auto
  with filter_same_key [OF assms this(1)] show ?thesis by auto
next
  case False
  then have "filter (\<lambda>y. f y = k) xs = []"
    by (auto simp: filter_empty_conv)
  then show ?thesis ..
qed

lemma upsert_all_idem:
  assumes d: "distinct (map (key ks) (rows P))"
    and nn: "non_null_keys ks (rows P)"
    and up: "upsert_all ks P T = Inr T'"
  shows "upsert_all ks P T' = Inr T'"
proof -
  define F where "F t = filter (\<lambda>s. matches ks s t) (rows P)" for t
  define upd where "upd t = (case F t of [] \<Rightarrow> t | s # _ \<Rightarrow> conform (columns T) s)" for t
  define ins where "ins = filter (\<lambda>s. \<not> list_ex (\<lambda>t. matches ks s t) (rows T)) (rows P)"
  from up have res: "resolves ks P" "resolves ks T" "resolves (columns T) P"
    and T': "T' = T\<lparr>rows := map upd (rows T) @ map (conform (columns T)) ins\<rparr>"
    by (auto simp: upsert_all_def upd_def [abs_def] F_def [abs_def] ins_def
          split: if_splits)
  have cols: "columns T' = columns T" by (simp add: T')
  have kc: "key ks (conform (columns T) s) = key ks s" for s
    using res(2) by (simp add: key_conform resolves_subset)
  have Fkey: "F t = filter (\<lambda>s. key ks s = key ks t) (rows P)" for t
    unfolding F_def using nn
    by (intro filter_cong refl) (simp add: matches_iff_key non_null_keys_def list_all_iff)
  have Fcases: "F t = [] \<or> (\<exists>s \<in> set (rows P). key ks s = key ks t \<and> F t = [s])" for t
    unfolding Fkey using filter_key_le1 [OF d] .
  have Fconf: "F (conform (columns T) s) = [s]" if "s \<in> set (rows P)" for s
    unfolding Fkey kc using filter_same_key [OF d that] .
  have stay: "upd t' = t'" if "t' \<in> set (rows T')" for t'
  proof -
    from that consider t where "t \<in> set (rows T)" "t' = upd t"
      | s where "s \<in> set ins" "t' = conform (columns T) s"
      by (auto simp: T')
    then show ?thesis
    proof cases
      case 1
      from Fcases [of t] show ?thesis
      proof
        assume "F t = []"
        then show ?thesis using 1 by (simp add: upd_def)
      next
        assume "\<exists>s \<in> set (rows P). key ks s = key ks t \<and> F t = [s]"
        then obtain s where s: "s \<in> set (rows P)" "F t = [s]" by auto
        then have "t' = conform (columns T) s" using 1 by (simp add: upd_def)
        then show ?thesis using Fconf [OF s(1)] by (simp add: upd_def)
      qed
    next
      case 2
      then have "s \<in> set (rows P)" by (simp add: ins_def)
      then show ?thesis using Fconf 2 by (simp add: upd_def)
    qed
  qed
  have le1: "length (F t') \<le> 1" for t'
    using Fcases [of t'] by auto
  have all_matched: "list_ex (\<lambda>t'. matches ks s t') (rows T')" if s: "s \<in> set (rows P)" for s
  proof (cases "list_ex (\<lambda>t. matches ks s t) (rows T)")
    case True
    then obtain t where t: "t \<in> set (rows T)" "matches ks s t"
      by (auto simp: list_ex_iff)
    then have "s \<in> set (F t)" using s by (simp add: F_def)
    with Fcases [of t] have "F t = [s]" by auto
    then have "upd t = conform (columns T) s" by (simp add: upd_def)
    moreover have "matches ks s (conform (columns T) s)"
      using s nn kc by (simp add: matches_iff_key non_null_keys_def list_all_iff)
    moreover have "upd t \<in> set (rows T')"
      using t(1) by (simp add: T')
    ultimately have "upd t \<in> set (rows T')" "matches ks s (upd t)"
      by simp_all
    then show ?thesis unfolding list_ex_iff by blast
  next
    case False
    then have "s \<in> set ins" using s by (simp add: ins_def)
    moreover have "matches ks s (conform (columns T) s)"
      using s nn kc by (simp add: matches_iff_key non_null_keys_def list_all_iff)
    ultimately show ?thesis by (auto simp: list_ex_iff T')
  qed
  have no_multi: "\<not> list_ex (\<lambda>t. 1 < length (filter (\<lambda>s. matches ks s t) (rows P))) (rows T')"
    using le1 by (auto simp: list_ex_iff F_def [symmetric] not_less)
  have ins': "filter (\<lambda>s. \<not> list_ex (\<lambda>t. matches ks s t) (rows T')) (rows P) = []"
    using all_matched by (auto simp: filter_empty_conv)
  have "map (\<lambda>t. case filter (\<lambda>s. matches ks s t) (rows P) of [] \<Rightarrow> t
                    | s # _ \<Rightarrow> conform (columns T') s) (rows T') = map upd (rows T')"
    by (simp add: upd_def F_def cols cong: list.case_cong)
  also have "\<dots> = rows T'"
    using stay by (simp add: map_idI)
  finally have "upsert_all ks P T' = Inr (T'\<lparr>rows := rows T'\<rparr>)"
    using res no_multi ins' cols by (simp add: upsert_all_def resolves_subset)
  then show ?thesis by simp
qed

lemma filter_key_concat_partitions:
  assumes keys: "\<And>p x. x \<in> set (G p) \<Longrightarrow> \<exists>y \<in> set p. key ks x = key ks y"
  shows "filter (\<lambda>r. key ks r = k) (concat (map G (partitions ks rs)))
           = G (filter (\<lambda>r. key ks r = k) rs)"
proof -
  define part where "part k' = filter (\<lambda>r. key ks r = k') rs" for k'
  define K where "K = remdups (map (key ks) rs)"
  have G0: "G [] = []"
    using keys [of _ "[]"] by (cases "G []") auto
  have one: "filter (\<lambda>r. key ks r = k) (G (part k')) = (if k' = k then G (part k) else [])" for k'
  proof -
    have "key ks x = k'" if "x \<in> set (G (part k'))" for x
      using keys [OF that] by (auto simp: part_def)
    then show ?thesis by (simp add: filter_all_or_nothing [where k' = k'])
  qed
  have "filter (\<lambda>r. key ks r = k) (concat (map G (partitions ks rs)))
          = concat (map (\<lambda>k'. if k' = k then G (part k) else []) K)"
    by (simp add: partitions_def filter_concat comp_def one part_def [symmetric] K_def)
  also have "\<dots> = (if k \<in> set K then G (part k) else [])"
    by (rule concat_map_if_distinct) (simp add: K_def)
  also have "\<dots> = G (part k)"
  proof (cases "k \<in> set K")
    case True
    then show ?thesis by simp
  next
    case False
    then have "part k = []"
      by (auto simp: K_def part_def filter_empty_conv)
    then show ?thesis using False by (simp add: G0)
  qed
  finally show ?thesis by (simp add: part_def)
qed

lemma drop_set_col_fresh:
  "u \<notin> set (map fst r) \<Longrightarrow> filter (\<lambda>p. fst p \<noteq> u) (set_col u v r) = r"
  by (auto simp: set_col_def filter_id_conv)

lemma filter_map2_set_col_none:
  assumes "\<And>v. v \<in> set vs \<Longrightarrow> \<not> Q v"
  shows "filter (\<lambda>r. Q (col r u)) (map2 (set_col u) vs xs) = []"
  using assms by (auto simp: filter_empty_conv dest: set_zip_leftD)

lemma row_number_first:
  "filter (\<lambda>r. col r u = Some 1) (map2 (set_col u) (row_number sp) sp)
     = map (set_col u (Some 1)) (take 1 sp)"
proof (cases sp)
  case Nil
  then show ?thesis by (simp add: row_number_def)
next
  case (Cons x xs)
  have "[Suc 0 ..< Suc (Suc (length xs))] = Suc 0 # [Suc (Suc 0) ..< Suc (Suc (length xs))]"
    by (rule upt_conv_Cons) simp
  then have rn: "row_number (x # xs)
      = Some 1 # map (\<lambda>i. Some (int i)) [Suc (Suc 0) ..< Suc (Suc (length xs))]"
    by (simp add: row_number_def)
  have "filter (\<lambda>r. col r u = Some 1)
          (map2 (set_col u) (map (\<lambda>i. Some (int i)) [Suc (Suc 0) ..< Suc (Suc (length xs))]) xs) = []"
    by (rule filter_map2_set_col_none [where Q = "\<lambda>v. v = Some 1"]) auto
  then show ?thesis by (simp add: Cons rn)
qed

lemma scd1_payload_rows:
  assumes wf: "wf_frame src" and u: "u \<notin> set (columns src)"
  shows "scd1_payload src ks ets u
     = \<lparr>columns = columns src,
        rows = concat (map (\<lambda>p. take 1 (sort_rows [Desc ets] p)) (partitions ks (rows src)))\<rparr>"
proof -
  have fresh: "u \<notin> set (map fst r)" if "r \<in> set (rows src)" for r
    using wf u that by (simp add: wf_frame_def list_all_iff)
  have part: "set p \<subseteq> set (rows src)" if "p \<in> set (partitions ks (rows src))" for p
    using that by (auto simp: partitions_def)
  have one: "map (filter (\<lambda>p. fst p \<noteq> u))
               (filter (\<lambda>r. col r u = Some 1)
                  (map2 (set_col u) (row_number (sort_rows [Desc ets] p)) (sort_rows [Desc ets] p)))
             = take 1 (sort_rows [Desc ets] p)"
    if "p \<in> set (partitions ks (rows src))" for p
  proof -
    have "set (take 1 (sort_rows [Desc ets] p)) \<subseteq> set (rows src)"
      using part [OF that] set_take_subset [of 1 "sort_rows [Desc ets] p"] by auto
    then have "map (\<lambda>r. filter (\<lambda>p. fst p \<noteq> u) (set_col u (Some 1) r))
                 (take 1 (sort_rows [Desc ets] p)) = take 1 (sort_rows [Desc ets] p)"
      using fresh by (intro map_idI) (auto simp: drop_set_col_fresh)
    then show ?thesis by (simp add: row_number_first comp_def)
  qed
  have cols: "filter (\<lambda>k. k \<noteq> u) (add_column u (columns src)) = columns src"
    using u by (auto simp: add_column_def filter_id_conv)
  have "rows (scd1_payload src ks ets u)
          = concat (map (\<lambda>p. map (filter (\<lambda>p. fst p \<noteq> u))
               (filter (\<lambda>r. col r u = Some 1)
                  (map2 (set_col u) (row_number (sort_rows [Desc ets] p)) (sort_rows [Desc ets] p))))
               (partitions ks (rows src)))"
    by (simp add: scd1_payload_def drop_col_def where_rows_def withColumn_over_def Let_def
          filter_concat map_concat comp_def)
  also have "\<dots> = concat (map (\<lambda>p. take 1 (sort_rows [Desc ets] p)) (partitions ks (rows src)))"
    using one by (simp cong: map_cong)
  finally show ?thesis
    by (simp add: scd1_payload_def drop_col_def where_rows_def Let_def cols)
qed

lemma scd1_payload_key:
  assumes wf: "wf_frame src" and u: "u \<notin> set (columns src)"
  shows "filter (\<lambda>r. key ks r = k) (rows (scd1_payload src ks ets u))
     = take 1 (sort_rows [Desc ets] (filter (\<lambda>r. key ks r = k) (rows src)))"
proof -
  have "\<exists>y\<in>set p. key ks x = key ks y" if "x \<in> set (take 1 (sort_rows [Desc ets] p))" for p x
    using that set_take_subset [of 1 "sort_rows [Desc ets] p"] by auto
  then have "filter (\<lambda>r. key ks r = k)
        (concat (map (\<lambda>p. take 1 (sort_rows [Desc ets] p)) (partitions ks (rows src))))
      = take 1 (sort_rows [Desc ets] (filter (\<lambda>r. key ks r = k) (rows src)))"
    by (rule filter_key_concat_partitions)
  then show ?thesis
    unfolding scd1_payload_rows [OF wf u] by simp
qed

lemma ord_key_Desc_le:
  "(ord_key (Desc c) r \<le> ord_key (Desc c) r') = (col r' c \<le> col r c)"
  by (cases "col r c"; cases "col r' c") auto

lemma ord_key_Asc_le:
  "(ord_key (Asc c) r \<le> ord_key (Asc c) r') = (col r c \<le> col r' c)"
  by (cases "col r c"; cases "col r' c") auto

lemma take1_sort_key_min:
  assumes "take 1 (sort_key f xs) = [x]" and "y \<in> set xs"
  shows "f x \<le> f y"
proof -
  obtain zs where s: "sort_key f xs = x # zs"
    using assms(1) by (cases "sort_key f xs") auto
  have "sorted (map f (sort_key f xs))" by simp
  moreover have "y \<in> set (sort_key f xs)" using assms(2) by simp
  ultimately show ?thesis unfolding s by auto
qed

lemma execute_merge_InrD:
  assumes "execute_merge st h action = (Inr x, st1)"
  shows "\<exists>l t t'. locate st h = Some l \<and> conflicts st = 0 \<and> tables st l = Some t
           \<and> action t = Inr t'
           \<and> st1 = (record_call (Merge l) st)\<lparr>tables := (tables st)(l \<mapsto> t')\<rparr>"
  using assms
  by (auto simp: execute_merge_def Let_def split: option.splits if_splits sum.splits)

lemma singleton_le: "([a] \<le> [b]) = (a \<le> (b :: 'a :: linorder))"
  by (auto simp: le_less)

lemma scd1_payload_survivor:
  assumes wf: "wf_frame src" and u: "u \<notin> set (columns src)"
    and k: "k \<in> set (map (key ks) (rows src))"
  shows "\<exists>r \<in> set (rows src). key ks r = k
           \<and> filter (\<lambda>x. key ks x = k) (rows (scd1_payload src ks ets u)) = [r]
           \<and> (\<forall>r' \<in> set (rows src). key ks r' = k \<longrightarrow> col r' ets \<le> col r ets)"
proof -
  define Bk where "Bk = filter (\<lambda>r. key ks r = k) (rows src)"
  define f where "f r = map (\<lambda>ob. ord_key ob r) [Desc ets]" for r :: row
  have ne: "sort_key f Bk \<noteq> []"
    using k by (auto simp: Bk_def filter_empty_conv simp flip: set_empty)
  then obtain r zs where s: "sort_key f Bk = r # zs"
    by (cases "sort_key f Bk") auto
  then have t1: "take 1 (sort_key f Bk) = [r]" by simp
  have "r \<in> set (sort_key f Bk)" using s by simp
  then have rin: "r \<in> set (rows src)" "key ks r = k"
    by (simp_all add: Bk_def)
  have "col r' ets \<le> col r ets" if "r' \<in> set (rows src)" "key ks r' = k" for r'
  proof -
    have "r' \<in> set Bk" using that by (simp add: Bk_def)
    from take1_sort_key_min [OF t1 this] have "[ord_key (Desc ets) r] \<le> [ord_key (Desc ets) r']"
      by (simp add: f_def del: ord_key.simps)
    then show ?thesis
      by (simp only: singleton_le ord_key_Desc_le)
  qed
  moreover have "filter (\<lambda>x. key ks x = k) (rows (scd1_payload src ks ets u)) = [r]"
    using t1 by (simp add: scd1_payload_key [OF wf u] sort_rows_def f_def [abs_def] Bk_def)
  ultimately show ?thesis using rin by blast
qed


lemma sort_key_set_unique:
  assumes "set xs = set ys" and "distinct xs" and "distinct ys" and "inj_on f (set xs)"
  shows "sort_key f xs = sort_key f ys"
proof -
  have "map f (sort_key f xs) = map f (sort_key f ys)"
  proof (rule sorted_distinct_set_unique)
    show "distinct (map f (sort_key f xs))"
      using assms(2,4) by (simp add: distinct_map)
    show "distinct (map f (sort_key f ys))"
      using assms(1,3,4) by (simp add: distinct_map)
    show "set (map f (sort_key f xs)) = set (map f (sort_key f ys))"
      using assms(1) by simp
  qed simp_all
  moreover have "inj_on f (set (sort_key f xs) \<union> set (sort_key f ys))"
    using assms(1,4) by simp
  ultimately show ?thesis
    by (rule map_inj_on)
qed

lemma ord_key_inj: "(ord_key ob r = ord_key ob r') = (col r (case ob of Asc c \<Rightarrow> c | Desc c \<Rightarrow> c)
    = col r' (case ob of Asc c \<Rightarrow> c | Desc c \<Rightarrow> c))"
  by (cases ob) (auto split: option.splits)

lemma upsert_all_reorder:
  assumes cols: "columns P' = columns P" and rows: "set (rows P') = set (rows P)"
    and d: "distinct (map (key ks) (rows P))" and d': "distinct (map (key ks) (rows P'))"
    and nn: "non_null_keys ks (rows P)"
    and up: "upsert_all ks P X = Inr X"
  shows "upsert_all ks P' X = Inr X"
proof -
  define F where "F Q t = filter (\<lambda>s. matches ks s t) (rows Q)" for Q :: frame and t
  have nn': "non_null_keys ks (rows P')"
    using nn rows by (simp add: non_null_keys_def list_all_iff)
  have Fkey: "F P t = filter (\<lambda>s. key ks s = key ks t) (rows P)"
    "F P' t = filter (\<lambda>s. key ks s = key ks t) (rows P')" for t
    unfolding F_def using nn nn'
    by (auto intro!: filter_cong simp: matches_iff_key non_null_keys_def list_all_iff)
  have Feq: "F P' t = F P t" for t
  proof -
    from filter_key_le1 [OF d, of "key ks t"] filter_key_le1 [OF d', of "key ks t"]
    consider "F P t = []" "F P' t = []"
      | s where "F P t = [s]" "F P' t = []"
      | s where "F P t = []" "F P' t = [s]"
      | s s' where "F P t = [s]" "F P' t = [s']"
      unfolding Fkey by blast
    then show ?thesis
    proof cases
      case 2
      then have "s \<in> set (F P t)" "s \<notin> set (F P' t)" by simp_all
      then show ?thesis unfolding Fkey using rows by simp
    next
      case 3
      then have "s \<in> set (F P' t)" "s \<notin> set (F P t)" by simp_all
      then show ?thesis unfolding Fkey using rows by simp
    next
      case 4
      then have a: "s \<in> set (F P t)" "s' \<in> set (F P' t)" by simp_all
      then have "s' \<in> set (F P t)" unfolding Fkey using rows by simp
      with 4 show ?thesis by simp
    qed simp
  qed
  define ins where "ins Q = filter (\<lambda>s. \<not> list_ex (\<lambda>t. matches ks s t) (rows X)) (rows Q)"
    for Q :: frame
  from up have res: "resolves ks P" "resolves ks X" "resolves (columns X) P"
    and nm: "\<not> list_ex (\<lambda>t. 1 < length (F P t)) (rows X)"
    and X: "X = X\<lparr>rows := map (\<lambda>t. case F P t of [] \<Rightarrow> t | s # _ \<Rightarrow> conform (columns X) s) (rows X)
                         @ map (conform (columns X)) (ins P)\<rparr>"
    by (auto simp: upsert_all_def F_def [abs_def] ins_def split: if_splits)
  from X have "length (rows X) = length (rows X) + length (ins P)"
    by (metis (no_types, lifting) frame.select_convs(2) frame.surjective frame.update_convs(2)
        length_append length_map)
  then have "ins P = []" by simp
  then have "ins P' = []"
    using rows by (auto simp: ins_def filter_empty_conv)
  have "upsert_all ks P' X
      = Inr (X\<lparr>rows := map (\<lambda>t. case F P' t of [] \<Rightarrow> t | s # _ \<Rightarrow> conform (columns X) s) (rows X)
                         @ map (conform (columns X)) (ins P')\<rparr>)"
    using res nm cols by (simp add: upsert_all_def F_def [abs_def] ins_def resolves_def Feq [unfolded F_def])
  also have "\<dots> = Inr X"
    using X \<open>ins P = []\<close> \<open>ins P' = []\<close> by (simp add: Feq)
  finally show ?thesis .
qed

lemma same_batch_wf: "same_batch a b \<Longrightarrow> wf_frame a \<Longrightarrow> wf_frame b"
  by (simp add: same_batch_def wf_frame_def list_all_iff)

lemma scd1_payload_same_batch:
  assumes sb: "same_batch src src'" and nt: "no_ties ks ets (rows src)"
    and wf: "wf_frame src" and u: "u \<notin> set (columns src)" and u': "u' \<notin> set (columns src)"
  shows "filter (\<lambda>r. key ks r = k) (rows (scd1_payload src' ks ets u'))
       = filter (\<lambda>r. key ks r = k) (rows (scd1_payload src ks ets u))"
proof -
  define f where "f r = map (\<lambda>ob. ord_key ob r) [Desc ets]" for r :: row
  define Bk where "Bk = filter (\<lambda>r. key ks r = k) (rows src)"
  define Bk' where "Bk' = filter (\<lambda>r. key ks r = k) (rows src')"
  have wf': "wf_frame src'"
    using sb wf by (rule same_batch_wf)
  have u'': "u' \<notin> set (columns src')"
    using sb u' by (simp add: same_batch_def)
  have inj: "inj_on (\<lambda>r. (key ks r, col r ets)) (set (rows src))" and dist: "distinct (rows src)"
    using nt by (simp_all add: no_ties_def distinct_map)
  have "inj_on f (set Bk)"
  proof (rule inj_onI)
    fix x y assume x: "x \<in> set Bk" and y: "y \<in> set Bk" and "f x = f y"
    then have "col x ets = col y ets"
      by (simp add: f_def ord_key_inj del: ord_key.simps)
    moreover have "key ks x = key ks y" using x y by (simp add: Bk_def)
    ultimately show "x = y"
      using inj x y by (auto simp: Bk_def dest: inj_onD)
  qed
  moreover have "set Bk' = set Bk" "distinct Bk'" "distinct Bk"
    using sb dist by (auto simp: Bk_def Bk'_def same_batch_def)
  ultimately have "sort_key f Bk' = sort_key f Bk"
    by (intro sort_key_set_unique) simp_all
  then show ?thesis
    by (simp add: scd1_payload_key [OF wf u] scd1_payload_key [OF wf' u''] sort_rows_def
          f_def [abs_def] Bk_def Bk'_def)
qed

lemma set_by_key:
  assumes "\<And>k. filter (\<lambda>r. f r = k) xs = filter (\<lambda>r. f r = k) ys"
  shows "set xs = set ys"
proof -
  have "(x \<in> set xs) = (x \<in> set ys)" for x
  proof -
    have "(x \<in> set xs) = (x \<in> set (filter (\<lambda>r. f r = f x) xs))" by simp
    also have "\<dots> = (x \<in> set (filter (\<lambda>r. f r = f x) ys))" by (simp only: assms)
    also have "\<dots> = (x \<in> set ys)" by simp
    finally show ?thesis .
  qed
  then show ?thesis by blast
qed

text \<open>
  C4, as the specification states it, fails, in two ways.  A batch of one row whose key is
  NULL is inserted by the first type-1 merge and inserted again by the second, since the
  merge condition \<open>source.id = target.id\<close> is not true for NULL: one row after one
  application, two after two.  And of two batch rows with the same key and the same
  \<open>effective_ts\<close> either may be taken: when the rows reach the window in one order the first
  time and in the other order the second time, the table holds the value 10 after one
  application and 20 after two.
\<close>

theorem scd_type1_not_idempotent_counterexample:
  "tables (snd (scd scenario_B_store (ForPath ''/t'') null_key_source [''id''] ''ts'' None 1 ''u''))
     ''/t''
     = Some \<lparr>columns = [''id'', ''ts'', ''val''],
             rows = [[(''id'', None), (''ts'', Some 1), (''val'', Some 10)]]\<rparr>
   \<and> tables (snd (scd (snd (scd scenario_B_store (ForPath ''/t'') null_key_source [''id''] ''ts''
                               None 1 ''u''))
                     (ForPath ''/t'') null_key_source [''id''] ''ts'' None 1 ''u'')) ''/t''
     = Some \<lparr>columns = [''id'', ''ts'', ''val''],
             rows = [[(''id'', None), (''ts'', Some 1), (''val'', Some 10)],
                     [(''id'', None), (''ts'', Some 1), (''val'', Some 10)]]\<rparr>
   \<and> same_batch tie_source tie_source_reordered
   \<and> tables (snd (scd scenario_B_store (ForPath ''/t'') tie_source [''id''] ''ts'' None 1 ''u''))
       ''/t''
     = Some \<lparr>columns = [''id'', ''ts'', ''val''],
             rows = [[(''id'', Some 1), (''ts'', Some 1), (''val'', Some 10)]]\<rparr>
   \<and> tables (snd (scd (snd (scd scenario_B_store (ForPath ''/t'') tie_source [''id''] ''ts''
                               None 1 ''u''))
                     (ForPath ''/t'') tie_source_reordered [''id''] ''ts'' None 1 ''u'')) ''/t''
     = Some \<lparr>columns = [''id'', ''ts'', ''val''],
             rows = [[(''id'', Some 1), (''ts'', Some 1), (''val'', Some 20)]]\<rparr>"
  by code_simp

text \<open>
  C4, amended.  For a batch without NULL in its key columns and without two rows of the
  same key and \<open>effective_ts\<close>, the type-1 merge is idempotent: when one application has
  succeeded, a second application of the same batch, its rows in any order, succeeds and
  leaves every table as the first left it.  For each key of the batch exactly one row of
  the batch goes into the merge, and no row of the batch with that key has a larger
  \<open>effective_ts\<close> (NULL counts as the smallest).  The batch is a well-formed frame, and the
  temporary column names, which may differ between the two applications, are not columns
  of the batch.
\<close>

theorem scd_type1_idempotent:
  assumes wf: "wf_frame src" and nn: "non_null_keys ks (rows src)"
    and nt: "no_ties ks ets (rows src)" and sb: "same_batch src src'"
    and u: "u \<notin> set (columns src)" and u': "u' \<notin> set (columns src)"
    and once: "scd st h src ks ets e 1 u = (Inr h1, st1)"
  shows "fst (scd st1 h src' ks ets e 1 u') = Inr h
    \<and> tables (snd (scd st1 h src' ks ets e 1 u')) = tables st1
    \<and> (\<forall>k \<in> set (map (key ks) (rows src)).
         \<exists>r \<in> set (rows src). key ks r = k
           \<and> filter (\<lambda>x. key ks x = k) (rows (scd1_payload src ks ets u)) = [r]
           \<and> (\<forall>r' \<in> set (rows src). key ks r' = k \<longrightarrow> col r' ets \<le> col r ets))"
proof -
  define P where "P = scd1_payload src ks ets u"
  define P' where "P' = scd1_payload src' ks ets u'"
  have wf': "wf_frame src'"
    using sb wf by (rule same_batch_wf)
  have u'': "u' \<notin> set (columns src')"
    using sb u' by (simp add: same_batch_def)
  have pk: "filter (\<lambda>r. key ks r = k) (rows P') = filter (\<lambda>r. key ks r = k) (rows P)" for k
    unfolding P_def P'_def using sb nt wf u u' by (rule scd1_payload_same_batch)
  have rowsP: "set (rows P') = set (rows P)"
    using pk by (rule set_by_key)
  have colsP: "columns P' = columns P"
    using sb by (simp add: P_def P'_def scd1_payload_rows [OF wf u] scd1_payload_rows [OF wf' u'']
          same_batch_def)
  have "length (filter (\<lambda>x. key ks x = k) (rows P)) \<le> 1" for k
    by (simp add: P_def scd1_payload_key [OF wf u])
  then have dP: "distinct (map (key ks) (rows P))"
    by (rule distinct_map_if_filter_le1)
  have "length (filter (\<lambda>x. key ks x = k) (rows P')) \<le> 1" for k
    by (simp add: P'_def scd1_payload_key [OF wf' u''])
  then have dP': "distinct (map (key ks) (rows P'))"
    by (rule distinct_map_if_filter_le1)
  have sub: "set (rows P) \<subseteq> set (rows src)"
  proof
    fix x assume "x \<in> set (rows P)"
    then have "x \<in> set (filter (\<lambda>r. key ks r = key ks x) (rows P))" by simp
    then have "x \<in> set (take 1 (sort_rows [Desc ets] (filter (\<lambda>r. key ks r = key ks x) (rows src))))"
      by (simp only: P_def scd1_payload_key [OF wf u])
    then have "x \<in> set (sort_rows [Desc ets] (filter (\<lambda>r. key ks r = key ks x) (rows src)))"
      by (rule in_set_takeD)
    then show "x \<in> set (rows src)" by simp
  qed
  have nnP: "non_null_keys ks (rows P)"
    using nn sub by (auto simp: non_null_keys_def list_all_iff)
  from once have res: "resolves (ks @ [ets]) src"
    by (auto simp: scd_def scd1_def split: if_splits)
  then have res': "resolves (ks @ [ets]) src'"
    using sb by (simp add: resolves_def same_batch_def)
  from once res have em: "execute_merge st h (upsert_all ks P) = (Inr (), st1)"
    by (auto simp: scd_def scd1_def Let_def P_def split: prod.splits sum.splits)
  from execute_merge_InrD [OF em] obtain l t t' where
    l: "locate st h = Some l" and q: "conflicts st = 0" and t: "tables st l = Some t"
    and up: "upsert_all ks P t = Inr t'"
    and st1: "st1 = (record_call (Merge l) st)\<lparr>tables := (tables st)(l \<mapsto> t')\<rparr>"
    by blast
  have "upsert_all ks P t' = Inr t'"
    using dP nnP up by (rule upsert_all_idem)
  with colsP rowsP dP dP' nnP have up2: "upsert_all ks P' t' = Inr t'"
    by (rule upsert_all_reorder)
  have l1: "locate st1 h = Some l" "conflicts st1 = 0" "tables st1 l = Some t'"
    using l q by (simp_all add: st1 locate_def split: handle.splits)
  have "execute_merge st1 h (upsert_all ks P')
          = (Inr (), (record_call (Merge l) st1)\<lparr>tables := (tables st1)(l \<mapsto> t')\<rparr>)"
    using l1(2) l1(1) l1(3) up2 by (rule execute_merge_ok)
  moreover have "(tables st1)(l \<mapsto> t') = tables st1"
    using l1(3) by (simp add: fun_upd_idem)
  ultimately have "scd st1 h src' ks ets e 1 u'
          = (Inr h, (record_call (Merge l) st1)\<lparr>tables := tables st1\<rparr>)"
    using res' by (simp add: scd_def scd1_def P'_def)
  then show ?thesis
    using scd1_payload_survivor [OF wf u] by simp
qed

theorem scd_type1_idempotent_witness:
  "fst (scd (snd (scd scenario_B_store (ForPath ''/t'') scenario_B_source [''id''] ''ts'' None 1 ''u''))
          (ForPath ''/t'') scenario_B_reordered [''id''] ''ts'' None 1 ''v'') = Inr (ForPath ''/t'')
   \<and> tables (snd (scd (snd (scd scenario_B_store (ForPath ''/t'') scenario_B_source [''id''] ''ts''
                               None 1 ''u''))
                     (ForPath ''/t'') scenario_B_reordered [''id''] ''ts'' None 1 ''v''))
     = tables (snd (scd scenario_B_store (ForPath ''/t'') scenario_B_source [''id''] ''ts'' None 1 ''u''))
   \<and> (\<exists>r \<in> set (rows scenario_B_source). key [''id''] r = [Some 1]
         \<and> filter (\<lambda>x. key [''id''] x = [Some 1])
               (rows (scd1_payload scenario_B_source [''id''] ''ts'' ''u'')) = [r]
         \<and> (\<forall>r' \<in> set (rows scenario_B_source). key [''id''] r' = [Some 1]
                \<longrightarrow> col r' ''ts'' \<le> col r ''ts''))"
proof -
  have wf: "wf_frame scenario_B_source"
    and nn: "non_null_keys [''id''] (rows scenario_B_source)"
    and nt: "no_ties [''id''] ''ts'' (rows scenario_B_source)"
    and u: "''u'' \<notin> set (columns scenario_B_source)"
    and v: "''v'' \<notin> set (columns scenario_B_source)"
    and k: "[Some 1] \<in> set (map (key [''id'']) (rows scenario_B_source))"
    by (simp_all add: scenario_B_source_def wf_frame_def non_null_keys_def no_ties_def key_def
          col_def)
  have sb: "same_batch scenario_B_source scenario_B_reordered"
    by (auto simp: same_batch_def scenario_B_source_def scenario_B_reordered_def)
  have "fst (scd scenario_B_store (ForPath ''/t'') scenario_B_source [''id''] ''ts'' None 1 ''u'')
          = Inr (ForPath ''/t'')"
    by code_simp
  then have once: "scd scenario_B_store (ForPath ''/t'') scenario_B_source [''id''] ''ts'' None 1 ''u''
      = (Inr (ForPath ''/t''),
         snd (scd scenario_B_store (ForPath ''/t'') scenario_B_source [''id''] ''ts'' None 1 ''u''))"
    by (metis prod.collapse)
  from scd_type1_idempotent [OF wf nn nt sb u v once] k show ?thesis
    by blast
qed

section \<open>Deduplication where no key is NULL\<close>

text \<open>The rows that \<open>deduplicate\<close> finds as duplicates and the rows that it stages, key
  by key.  Without an order a window keeps its rows as they arrive.\<close>

lemma insort_key_const: "insort_key (\<lambda>_. c) x xs = x # xs"
  by (cases xs) simp_all

lemma sort_key_const: "sort_key (\<lambda>_. c) xs = xs"
  by (induction xs) (simp_all add: insort_key_const)

lemma sort_rows_Nil [simp]: "sort_rows [] rs = rs"
  by (simp add: sort_rows_def sort_key_const)

lemma map2_replicate: "map2 g (replicate (length xs) v) xs = map (g v) xs"
  by (induction xs) simp_all

lemma conform_id:
  "map fst r = cs \<Longrightarrow> distinct cs \<Longrightarrow> conform cs r = r"
proof (induction r arbitrary: cs)
  case Nil
  then show ?case by (simp add: conform_def)
next
  case (Cons p r)
  obtain c v where p: "p = (c, v)" by (cases p)
  from Cons.prems p have cs: "cs = c # map fst r" and c: "c \<notin> set (map fst r)"
    and d: "distinct (map fst r)" by (auto simp del: set_map)
  have "col (p # r) c' = col r c'" if "c' \<in> set (map fst r)" for c'
    using that c by (auto simp: col_def p)
  then have "map (\<lambda>c'. (c', col (p # r) c')) (map fst r) = map (\<lambda>c'. (c', col r c')) (map fst r)"
    by (intro map_cong refl) simp
  also have "\<dots> = r"
    using Cons.IH [OF refl d] by (simp add: conform_def)
  finally show ?case
    by (simp add: conform_def cs) (simp add: col_def p)
qed

lemma dupes_of_rows:
  assumes wf: "wf_frame t" and cc: "cc \<notin> set (columns t)"
  shows "dupes_of ks cc t
     = \<lparr>columns = columns t,
        rows = concat (map (\<lambda>p. if 1 < length p then p else []) (partitions ks (rows t)))\<rparr>"
proof -
  have fresh: "cc \<notin> set (map fst r)" if "r \<in> set (rows t)" for r
    using wf cc that by (simp add: wf_frame_def list_all_iff)
  have part: "set p \<subseteq> set (rows t)" if "p \<in> set (partitions ks (rows t))" for p
    using that by (auto simp: partitions_def)
  have one: "map (filter (\<lambda>p. fst p \<noteq> cc))
               (filter (greater_than cc 1) (map2 (set_col cc) (count_star p) p))
             = (if 1 < length p then p else [])"
    if "p \<in> set (partitions ks (rows t))" for p
  proof -
    have m: "map2 (set_col cc) (count_star p) p = map (set_col cc (Some (int (length p)))) p"
      by (simp add: count_star_def map2_replicate)
    have f: "filter (greater_than cc 1) (map (set_col cc (Some (int (length p)))) p)
          = (if 1 < length p then map (set_col cc (Some (int (length p)))) p else [])"
      by (auto simp: greater_than_def filter_empty_conv filter_id_conv)
    have "map (\<lambda>r. filter (\<lambda>p. fst p \<noteq> cc) (set_col cc (Some (int (length p))) r)) p = p"
      using fresh part [OF that] by (intro map_idI) (auto simp: drop_set_col_fresh)
    then show ?thesis by (simp add: m f comp_def)
  qed
  have cols: "filter (\<lambda>k. k \<noteq> cc) (add_column cc (columns t)) = columns t"
    using cc by (auto simp: add_column_def filter_id_conv)
  have "rows (dupes_of ks cc t)
          = concat (map (\<lambda>p. map (filter (\<lambda>p. fst p \<noteq> cc))
               (filter (greater_than cc 1) (map2 (set_col cc) (count_star p) p)))
               (partitions ks (rows t)))"
    by (simp add: dupes_of_def drop_col_def where_rows_def withColumn_over_def Let_def
          filter_concat map_concat comp_def)
  also have "\<dots> = concat (map (\<lambda>p. if 1 < length p then p else []) (partitions ks (rows t)))"
    using one by (simp cong: map_cong)
  finally show ?thesis
    by (simp add: dupes_of_def drop_col_def where_rows_def Let_def cols)
qed

lemma dupes_of_key:
  assumes wf: "wf_frame t" and cc: "cc \<notin> set (columns t)"
  shows "filter (\<lambda>r. key ks r = k) (rows (dupes_of ks cc t))
     = (if 1 < length (filter (\<lambda>r. key ks r = k) (rows t))
        then filter (\<lambda>r. key ks r = k) (rows t) else [])"
proof -
  have "\<exists>y\<in>set p. key ks x = key ks y" if "x \<in> set (if 1 < length p then p else [])" for p x
    using that by (auto split: if_splits)
  then have "filter (\<lambda>r. key ks r = k)
        (concat (map (\<lambda>p. if 1 < length p then p else []) (partitions ks (rows t))))
      = (if 1 < length (filter (\<lambda>r. key ks r = k) (rows t))
         then filter (\<lambda>r. key ks r = k) (rows t) else [])"
    by (rule filter_key_concat_partitions)
  then show ?thesis
    unfolding dupes_of_rows [OF wf cc] by simp
qed

lemma first_of_window:
  assumes wf: "wf_frame src" and u: "u \<notin> set (columns src)"
  shows "drop_col u (where_rows (\<lambda>r. col r u = Some 1)
            (withColumn_over u row_number \<lparr>partitionBy = ks, orderBy = obs\<rparr> src))
     = \<lparr>columns = columns src,
        rows = concat (map (\<lambda>p. take 1 (sort_rows obs p)) (partitions ks (rows src)))\<rparr>"
proof -
  have fresh: "u \<notin> set (map fst r)" if "r \<in> set (rows src)" for r
    using wf u that by (simp add: wf_frame_def list_all_iff)
  have part: "set p \<subseteq> set (rows src)" if "p \<in> set (partitions ks (rows src))" for p
    using that by (auto simp: partitions_def)
  have one: "map (filter (\<lambda>p. fst p \<noteq> u))
               (filter (\<lambda>r. col r u = Some 1)
                  (map2 (set_col u) (row_number (sort_rows obs p)) (sort_rows obs p)))
             = take 1 (sort_rows obs p)"
    if "p \<in> set (partitions ks (rows src))" for p
  proof -
    have "set (take 1 (sort_rows obs p)) \<subseteq> set (rows src)"
      using part [OF that] set_take_subset [of 1 "sort_rows obs p"] by auto
    then have "map (\<lambda>r. filter (\<lambda>p. fst p \<noteq> u) (set_col u (Some 1) r))
                 (take 1 (sort_rows obs p)) = take 1 (sort_rows obs p)"
      using fresh by (intro map_idI) (auto simp: drop_set_col_fresh)
    then show ?thesis by (simp add: row_number_first comp_def)
  qed
  have cols: "filter (\<lambda>k. k \<noteq> u) (add_column u (columns src)) = columns src"
    using u by (auto simp: add_column_def filter_id_conv)
  have "map (filter (\<lambda>p. fst p \<noteq> u))
          (filter (\<lambda>r. col r u = Some 1)
             (concat (map (\<lambda>p. map2 (set_col u) (row_number (sort_rows obs p)) (sort_rows obs p))
                        (partitions ks (rows src)))))
          = concat (map (\<lambda>p. map (filter (\<lambda>p. fst p \<noteq> u))
               (filter (\<lambda>r. col r u = Some 1)
                  (map2 (set_col u) (row_number (sort_rows obs p)) (sort_rows obs p))))
               (partitions ks (rows src)))"
    by (simp add: filter_concat map_concat comp_def)
  also have "\<dots> = concat (map (\<lambda>p. take 1 (sort_rows obs p)) (partitions ks (rows src)))"
    using one by (simp cong: map_cong)
  finally show ?thesis
    by (simp add: drop_col_def where_rows_def withColumn_over_def Let_def cols)
qed

lemma drop_duplicates_rows_key:
  "filter (\<lambda>r. key ks r = k) (drop_duplicates_rows ks seen rs)
     = (if k \<in> set seen then [] else take 1 (filter (\<lambda>r. key ks r = k) rs))"
proof (induction rs arbitrary: seen)
  case Nil
  then show ?case by simp
next
  case (Cons r rs)
  show ?case
    by (cases "key ks r \<in> set seen"; cases "key ks r = k") (auto simp: Cons.IH)
qed

lemma deduped_of_key:
  assumes wf: "wf_frame d" and rn: "tbc \<noteq> [] \<Longrightarrow> rn \<notin> set (columns d)"
  shows "filter (\<lambda>r. key ks r = k) (rows (deduped_of ks tbc rn d))
     = take 1 (sort_rows (map Desc tbc) (filter (\<lambda>r. key ks r = k) (rows d)))"
proof (cases "tbc = []")
  case True
  then show ?thesis
    by (simp add: deduped_of_def drop_duplicates_def drop_duplicates_rows_key)
next
  case False
  have "\<exists>y\<in>set p. key ks x = key ks y" if "x \<in> set (take 1 (sort_rows (map Desc tbc) p))" for p x
    using that set_take_subset [of 1 "sort_rows (map Desc tbc) p"] by auto
  then have "filter (\<lambda>r. key ks r = k)
        (concat (map (\<lambda>p. take 1 (sort_rows (map Desc tbc) p)) (partitions ks (rows d))))
      = take 1 (sort_rows (map Desc tbc) (filter (\<lambda>r. key ks r = k) (rows d)))"
    by (rule filter_key_concat_partitions)
  then show ?thesis
    using False by (simp add: deduped_of_def first_of_window [OF wf rn [OF False]])
qed

lemma ord_key_Desc_less:
  "(ord_key (Desc c) r < ord_key (Desc c) r') = (col r' c < col r c)"
  by (cases "col r c"; cases "col r' c") auto

lemma ord_key_Desc_eq:
  "(ord_key (Desc c) r = ord_key (Desc c) r') = (col r' c = col r c)"
  by (cases "col r c"; cases "col r' c") auto

lemma desc_keys_le:
  "(map (\<lambda>ob. ord_key ob r) (map Desc cs) \<le> map (\<lambda>ob. ord_key ob r') (map Desc cs))
     = (map (col r') cs \<le> map (col r) cs)"
proof (induction cs)
  case Nil
  then show ?case by simp
next
  case (Cons c cs)
  have "(map (\<lambda>ob. ord_key ob r) (map Desc (c # cs)) \<le> map (\<lambda>ob. ord_key ob r') (map Desc (c # cs)))
      = (ord_key (Desc c) r < ord_key (Desc c) r'
         \<or> ord_key (Desc c) r = ord_key (Desc c) r'
           \<and> map (\<lambda>ob. ord_key ob r) (map Desc cs) \<le> map (\<lambda>ob. ord_key ob r') (map Desc cs))"
    by (simp del: ord_key.simps)
  also have "\<dots> = (col r' c < col r c \<or> col r' c = col r c \<and> map (col r') cs \<le> map (col r) cs)"
    by (simp only: ord_key_Desc_less ord_key_Desc_eq Cons.IH)
  also have "\<dots> = (map (col r') (c # cs) \<le> map (col r) (c # cs))"
    by simp
  finally show ?case .
qed

text \<open>
  On a table without NULL in its key columns \<open>deduplicate\<close> removes the duplicates.  It
  goes through all its steps, and afterwards no key is in two rows, the keys are those of
  before, every row is a row of before, and no row of before has, under the same key,
  larger values in the tie-breaking columns, the columns compared in the order given and
  NULL the smallest.  The table is a well-formed frame with distinct column names that
  contains the key columns and the tie-breaking columns, the temporary column names are
  not among its columns, the temporary path is free and the commit does not conflict.
\<close>

lemma deduplicate_non_null_keys:
  assumes loc: "locate st h = Some l" and tab: "tables st l = Some t"
    and free: "tables st temp_path = None" and quiet: "conflicts st = 0"
    and cols: "set ks \<subseteq> set (columns t)"
    and wf: "wf_frame t" and dc: "distinct (columns t)"
    and tcols: "set (case tb of None \<Rightarrow> [] | Some cs \<Rightarrow> cs) \<subseteq> set (columns t)"
    and nn: "non_null_keys ks (rows t)"
    and cc: "cc \<notin> set (columns t)" and rn: "rn \<notin> set (columns t)"
  shows "\<exists>t'. fst (deduplicate st h temp_path ks tb cc rn) = Inr h
    \<and> tables (snd (deduplicate st h temp_path ks tb cc rn)) l = Some t'
    \<and> columns t' = columns t
    \<and> distinct (map (key ks) (rows t'))
    \<and> set (map (key ks) (rows t')) = set (map (key ks) (rows t))
    \<and> set (rows t') \<subseteq> set (rows t)
    \<and> (\<forall>r' \<in> set (rows t'). \<forall>r \<in> set (rows t). key ks r = key ks r' \<longrightarrow>
          map (col r) (case tb of None \<Rightarrow> [] | Some cs \<Rightarrow> cs)
            \<le> map (col r') (case tb of None \<Rightarrow> [] | Some cs \<Rightarrow> cs))"
proof -
  define tbc where "tbc = (case tb of None \<Rightarrow> [] | Some cs \<Rightarrow> cs)"
  define dupes where "dupes = dupes_of ks cc t"
  define staged where "staged = deduped_of ks tbc rn dupes"
  define B where "B k = filter (\<lambda>r. key ks r = k) (rows t)" for k
  define f where "f r = map (\<lambda>ob. ord_key ob r) (map Desc tbc)" for r :: row
  have ne: "temp_path \<noteq> l" using tab free by auto
  have dcol: "columns dupes = columns t"
    by (simp add: dupes_def dupes_of_rows [OF wf cc])
  have Dk: "filter (\<lambda>r. key ks r = k) (rows dupes) = (if 1 < length (B k) then B k else [])" for k
    by (simp add: dupes_def dupes_of_key [OF wf cc] B_def)
  have din: "d \<in> set (rows dupes) \<longleftrightarrow> d \<in> set (rows t) \<and> 1 < length (B (key ks d))" for d
  proof -
    have "d \<in> set (rows dupes) \<longleftrightarrow> d \<in> set (filter (\<lambda>r. key ks r = key ks d) (rows dupes))"
      by simp
    also have "\<dots> \<longleftrightarrow> d \<in> set (rows t) \<and> 1 < length (B (key ks d))"
      unfolding Dk by (auto simp: B_def)
    finally show ?thesis .
  qed
  have wfd: "wf_frame dupes"
    using wf din by (simp add: wf_frame_def list_all_iff dcol)
  have rnd: "rn \<notin> set (columns dupes)" using rn by (simp add: dcol)
  have Sk: "filter (\<lambda>r. key ks r = k) (rows staged)
      = (if 1 < length (B k) then take 1 (sort_key f (B k)) else [])" for k
    by (simp add: staged_def deduped_of_key [OF wfd rnd] Dk sort_rows_def f_def [abs_def])
  have sin: "x \<in> set (rows t)" if "x \<in> set (rows staged)" for x
  proof -
    from that have "x \<in> set (filter (\<lambda>r. key ks r = key ks x) (rows staged))" by simp
    then have "x \<in> set (take 1 (sort_key f (B (key ks x))))"
      unfolding Sk by (simp split: if_splits)
    then have "x \<in> set (sort_key f (B (key ks x)))"
      using set_take_subset [of 1 "sort_key f (B (key ks x))"] by blast
    then show ?thesis by (simp add: B_def)
  qed
  have sc: "set (columns staged) \<subseteq> set (columns t)"
    unfolding staged_def dupes_def using columns_deduped_of columns_dupes_of by blast
  have sconf: "map (conform (columns t)) (rows staged) = rows staged"
  proof (intro map_idI)
    fix x assume "x \<in> set (rows staged)"
    then have "map fst x = columns t"
      using sin wf by (simp add: wf_frame_def list_all_iff)
    then show "conform (columns t) x = x" using dc by (rule conform_id)
  qed
  define kept where "kept = filter (\<lambda>r. \<not> 1 < length (B (key ks r))) (rows t)"
  have hit: "list_ex (\<lambda>s. matches ks s r) (rows (select_distinct ks dupes)) \<longleftrightarrow> 1 < length (B (key ks r))"
    if r: "r \<in> set (rows t)" for r
  proof
    assume "list_ex (\<lambda>s. matches ks s r) (rows (select_distinct ks dupes))"
    then obtain d where d: "d \<in> set (rows dupes)" "matches ks (conform ks d) r"
      by (auto simp: list_ex_iff select_distinct_def)
    from matches_key [OF d(2)] have "key ks d = key ks r"
      by (simp add: key_conform)
    with d(1) show "1 < length (B (key ks r))" by (simp add: din)
  next
    assume "1 < length (B (key ks r))"
    with r have d: "r \<in> set (rows dupes)" by (simp add: din)
    have "None \<notin> set (key ks (conform ks r))"
      using nn r by (simp add: key_conform non_null_keys_def list_all_iff)
    then have "matches ks (conform ks r) r"
      by (simp add: matches_iff_key key_conform)
    with d show "list_ex (\<lambda>s. matches ks s r) (rows (select_distinct ks dupes))"
      by (auto simp: list_ex_iff select_distinct_def)
  qed
  have del: "delete_matched ks (select_distinct ks dupes) t = Inr (t\<lparr>rows := kept\<rparr>)"
  proof -
    have "filter (\<lambda>r. \<not> list_ex (\<lambda>s. matches ks s r) (rows (select_distinct ks dupes))) (rows t) = kept"
      unfolding kept_def using hit by (intro filter_cong refl) simp
    moreover have "resolves ks (select_distinct ks dupes)"
      by (simp add: resolves_subset select_distinct_def)
    ultimately show ?thesis
      using cols by (simp add: delete_matched_def resolves_subset)
  qed
  define st1 where "st1 = record_call (ReadSnapshot l) (record_call (Detail l) st)"
  have r1: "toDF (record_call (Detail l) st) h = (Inr t, st1)"
    unfolding st1_def using loc tab by (simp add: toDF_Some)
  define st2 where "st2 = (record_call (WriteNew temp_path) st1)\<lparr>tables := (tables st)(temp_path \<mapsto> staged)\<rparr>"
  have r2: "write_new st1 temp_path staged = (Inr (), st2)"
    unfolding st2_def st1_def using free by (simp add: write_new_def Let_def)
  define st3 where "st3 = (record_call (Merge l) st2)\<lparr>tables := (tables st2)(l \<mapsto> t\<lparr>rows := kept\<rparr>)\<rparr>"
  have r3: "execute_merge st2 h (delete_matched ks (select_distinct ks dupes)) = (Inr (), st3)"
  proof -
    have "conflicts st2 = 0" "locate st2 h = Some l" "tables st2 l = Some t"
      using loc tab quiet ne by (simp_all add: st2_def st1_def locate_def split: handle.splits)
    then show ?thesis
      unfolding st3_def using del
      by (rule execute_merge_ok [where action = "delete_matched ks (select_distinct ks dupes)"])
  qed
  define st4 where "st4 = record_call (ReadLocation temp_path) st3"
  have r4: "read_location st3 temp_path = (Inr staged, st4)"
    unfolding st4_def using ne by (simp add: read_location_def Let_def st3_def st2_def)
  define t' where "t' = t\<lparr>rows := kept @ rows staged\<rparr>"
  define st5 where "st5 = (record_call (Append l) st4)\<lparr>tables := (tables st4)(l \<mapsto> t')\<rparr>"
  have r5: "append st4 l staged = (Inr (), st5)"
    unfolding st5_def t'_def using sc sconf
    by (simp add: append_def Let_def st4_def st3_def resolves_subset)
  have rk: "resolves ks t" using cols by (simp add: resolves_subset)
  have rt: "resolves tbc dupes"
    using tcols by (simp add: resolves_subset dcol tbc_def)
  have run: "deduplicate st h temp_path ks tb cc rn = (Inr h, st5)"
    using loc r1 r2 r3 r4 r5 rk rt
    by (simp add: deduplicate_def Let_def tbc_def [symmetric] dupes_def [symmetric]
          staged_def [symmetric])
  have Kk: "filter (\<lambda>r. key ks r = k) kept = (if 1 < length (B k) then [] else B k)" for k
  proof -
    have "filter (\<lambda>r. key ks r = k) kept
        = filter (\<lambda>r. key ks r = k \<and> \<not> 1 < length (B k)) (rows t)"
      unfolding kept_def filter_filter by (intro filter_cong refl) auto
    then show ?thesis by (auto simp: B_def)
  qed
  have Fk: "filter (\<lambda>r. key ks r = k) (rows t')
      = (if 1 < length (B k) then take 1 (sort_key f (B k)) else B k)" for k
    by (simp add: t'_def Kk Sk)
  have le1: "length (filter (\<lambda>r. key ks r = k) (rows t')) \<le> 1" for k
    unfolding Fk by simp
  have "distinct (map (key ks) (rows t'))"
    using le1 by (rule distinct_map_if_filter_le1)
  moreover have "set (map (key ks) (rows t')) = set (map (key ks) (rows t))"
  proof -
    have "k \<in> key ks ` set (rows t') \<longleftrightarrow> k \<in> key ks ` set (rows t)" for k
    proof -
      have "k \<in> key ks ` set (rows t') \<longleftrightarrow> filter (\<lambda>r. key ks r = k) (rows t') \<noteq> []"
        by (auto simp: filter_empty_conv)
      also have "\<dots> \<longleftrightarrow> B k \<noteq> []"
      proof (cases "1 < length (B k)")
        case True
        then have "B k \<noteq> []" by auto
        then have "sort_key f (B k) \<noteq> []"
          by (metis set_empty set_sort)
        then have "take 1 (sort_key f (B k)) \<noteq> []" by simp
        with True \<open>B k \<noteq> []\<close> show ?thesis by (simp add: Fk)
      next
        case False
        then show ?thesis by (simp add: Fk)
      qed
      also have "\<dots> \<longleftrightarrow> k \<in> key ks ` set (rows t)"
        by (auto simp: B_def filter_empty_conv)
      finally show ?thesis .
    qed
    then show ?thesis by auto
  qed
  moreover have "set (rows t') \<subseteq> set (rows t)"
    using sin by (auto simp: t'_def kept_def)
  moreover have "map (col r) tbc \<le> map (col r') tbc"
    if r': "r' \<in> set (rows t')" and r: "r \<in> set (rows t)" and k: "key ks r = key ks r'" for r r'
  proof (cases "1 < length (B (key ks r'))")
    case True
    from r' have "r' \<in> set (filter (\<lambda>x. key ks x = key ks r') (rows t'))" by simp
    then have "r' \<in> set (take 1 (sort_key f (B (key ks r'))))"
      unfolding Fk using True by simp
    then have "take 1 (sort_key f (B (key ks r'))) = [r']"
      by (cases "sort_key f (B (key ks r'))") auto
    moreover have "r \<in> set (B (key ks r'))" using r k by (simp add: B_def)
    ultimately have "f r' \<le> f r" by (rule take1_sort_key_min)
    then show ?thesis
      unfolding f_def by (simp only: desc_keys_le)
  next
    case False
    from r' have "r' \<in> set (filter (\<lambda>x. key ks x = key ks r') (rows t'))" by simp
    then have "r' \<in> set (B (key ks r'))"
      unfolding Fk using False by simp
    moreover have "r \<in> set (B (key ks r'))" using r k by (simp add: B_def)
    moreover have "length (B (key ks r')) \<le> 1" using False by simp
    ultimately have "r = r'"
      by (cases "B (key ks r')") auto
    then show ?thesis by simp
  qed
  moreover have "tables st5 l = Some t'" by (simp add: st5_def)
  moreover have "columns t' = columns t" by (simp add: t'_def)
  ultimately show ?thesis
    unfolding tbc_def [symmetric] run by (intro exI [of _ t']) simp
qed

section \<open>Type-2 merge and the tiling of intervals\<close>

subsection \<open>Consecutive intervals\<close>

lemma consecutive_append_single:
  "consecutive (xs @ [a]) \<Longrightarrow> consecutive (a # ys) \<Longrightarrow> consecutive (xs @ a # ys)"
  by (induction xs rule: consecutive.induct) auto

lemma consecutive_change_last:
  "consecutive (xs @ [a]) \<Longrightarrow> fst a = fst a' \<Longrightarrow> consecutive (xs @ [a'])"
  by (induction xs rule: consecutive.induct) auto

lemma consecutive_snd_in_fst:
  "consecutive (xs @ [b]) \<Longrightarrow> a \<in> set xs \<Longrightarrow> snd a \<in> fst ` set (xs @ [b])"
proof (induction xs)
  case Nil
  then show ?case by simp
next
  case (Cons x xs)
  show ?case
  proof (cases xs)
    case Nil
    with Cons.prems show ?thesis by auto
  next
    case (Cons y ys)
    with Cons.prems Cons.IH show ?thesis by auto
  qed
qed

lemma tiles_last_open:
  assumes t: "tiles ivs" and nn: "\<And>iv. iv \<in> set ivs \<Longrightarrow> fst iv \<noteq> None"
  shows "\<exists>xs b. ivs = xs @ [b] \<and> snd b = None \<and> (\<forall>a \<in> set xs. snd a \<noteq> None)"
proof -
  from t have c: "consecutive ivs" and one: "length (filter (\<lambda>iv. snd iv = None) ivs) = 1"
    by (simp_all add: tiles_def)
  from one have "ivs \<noteq> []" by auto
  then obtain xs b where ivs: "ivs = xs @ [b]"
    by (metis rev_exhaust)
  have closed: "snd a \<noteq> None" if "a \<in> set xs" for a
  proof -
    from consecutive_snd_in_fst [OF c [unfolded ivs] that]
    obtain d where "d \<in> set (xs @ [b])" "snd a = fst d" by (metis imageE)
    with nn [of d] show ?thesis by (simp add: ivs)
  qed
  then have "filter (\<lambda>iv. snd iv = None) xs = []"
    by (auto simp: filter_empty_conv)
  with one have "snd b = None"
    by (simp add: ivs split: if_splits)
  with closed ivs show ?thesis by blast
qed

subsection \<open>What \<open>lead\<close> writes\<close>

lemma length_lead [simp]: "length (lead c rs) = length rs"
  by (induction c rs rule: lead.induct) auto

lemma intervals_lead:
  assumes "e \<noteq> c"
  shows "intervals c e (map2 (set_col e) (lead c rs) rs) = zip (map (\<lambda>r. col r c) rs) (lead c rs)"
  using assms by (induction c rs rule: lead.induct) (auto simp: intervals_def)

lemma consecutive_zip_lead: "consecutive (zip (map (\<lambda>r. col r c) rs) (lead c rs))"
proof (induction c rs rule: lead.induct)
  case (3 c r r' rs)
  then show ?case by (cases rs) auto
qed auto

lemma lead_one_open:
  assumes "rs \<noteq> []" and "\<And>r. r \<in> set rs \<Longrightarrow> col r c \<noteq> None"
  shows "length (filter (\<lambda>iv. snd iv = None) (zip (map (\<lambda>r. col r c) rs) (lead c rs))) = 1"
  using assms
proof (induction c rs rule: lead.induct)
  case (3 c r r' rs)
  have "col r' c \<noteq> None" using "3.prems"(2) [of r'] by simp
  then obtain y where "col r' c = Some y" by auto
  moreover have "length (filter (\<lambda>iv. snd iv = None)
                   (zip (map (\<lambda>r. col r c) (r' # rs)) (lead c (r' # rs)))) = 1"
    using "3.prems"(2) by (intro "3.IH") auto
  ultimately show ?case by simp
qed auto

lemma tiles_lead:
  assumes "e \<noteq> c" and "rs \<noteq> []" and "\<And>r. r \<in> set rs \<Longrightarrow> col r c \<noteq> None"
  shows "tiles (intervals c e (map2 (set_col e) (lead c rs) rs))"
  using assms by (simp add: tiles_def intervals_lead consecutive_zip_lead lead_one_open)

lemma lead_Cons:
  "rs \<noteq> [] \<Longrightarrow> lead c (r # rs) = col (hd rs) c # lead c rs"
  by (cases rs) auto

subsection \<open>Sorting\<close>

lemma insort_key_append:
  "(\<And>y. y \<in> set bs \<Longrightarrow> f x \<le> f y) \<Longrightarrow> insort_key f x (as @ bs) = insort_key f x as @ bs"
  by (induction as) (auto simp: insort_is_Cons)

lemma sort_key_append:
  assumes "\<And>x y. x \<in> set xs \<Longrightarrow> y \<in> set ys \<Longrightarrow> f x \<le> f y"
  shows "sort_key f (xs @ ys) = sort_key f xs @ sort_key f ys"
  using assms
proof (induction xs)
  case Nil
  then show ?case by simp
next
  case (Cons a xs)
  have "insort_key f a (sort_key f xs @ sort_key f ys) = insort_key f a (sort_key f xs) @ sort_key f ys"
    by (rule insort_key_append) (simp add: Cons.prems)
  with Cons show ?case by simp
qed

lemma insort_key_cong_set:
  "f x = g x \<Longrightarrow> (\<And>y. y \<in> set ys \<Longrightarrow> f y = g y) \<Longrightarrow> insort_key f x ys = insort_key g x ys"
  by (induction ys) auto

lemma sort_key_cong_set:
  "(\<And>x. x \<in> set xs \<Longrightarrow> f x = g x) \<Longrightarrow> sort_key f xs = sort_key g xs"
proof (induction xs)
  case Nil
  then show ?case by simp
next
  case (Cons a xs)
  then have "sort_key f xs = sort_key g xs" by simp
  moreover have "insort_key f a (sort_key g xs) = insort_key g a (sort_key g xs)"
    using Cons.prems by (intro insort_key_cong_set) auto
  ultimately show ?case by simp
qed

lemma sort_rows_map_on:
  assumes "\<And>r ob. r \<in> set rs \<Longrightarrow> ob \<in> set os \<Longrightarrow> ord_key ob (g r) = ord_key ob r"
  shows "sort_rows os (map g rs) = map g (sort_rows os rs)"
proof -
  have "sort_key (\<lambda>y. map (\<lambda>ob. ord_key ob (g y)) os) rs = sort_key (\<lambda>y. map (\<lambda>ob. ord_key ob y) os) rs"
    using assms by (intro sort_key_cong_set) simp
  then show ?thesis by (simp add: sort_rows_def sort_key_map)
qed

lemma sort_key_singletonD: "sort_key f xs = [a] \<Longrightarrow> xs = [a]"
proof -
  assume s: "sort_key f xs = [a]"
  then have "length xs = 1" by (metis length_sort length_Cons list.size(3) One_nat_def)
  then obtain b where "xs = [b]" by (cases xs) auto
  with s show ?thesis by simp
qed

lemma ord_key_Asc_col: "col r' c = col r c \<Longrightarrow> ord_key (Asc c) r' = ord_key (Asc c) r"
  by simp

lemma asc_le: "([ord_key (Asc c) r] \<le> [ord_key (Asc c) r']) = (col r c \<le> col r' c)"
  by (simp only: singleton_le ord_key_Asc_le)

lemma asc_less_or_eq:
  "(ord_key (Asc c) r < ord_key (Asc c) r' \<or> ord_key (Asc c) r = ord_key (Asc c) r')
     = (col r c \<le> col r' c)"
  by (simp only: le_less [symmetric] ord_key_Asc_le)

lemma sort_rows_asc_append:
  assumes "\<And>x y. x \<in> set xs \<Longrightarrow> y \<in> set ys \<Longrightarrow> col x c \<le> col y c"
  shows "sort_rows [Asc c] (xs @ ys) = sort_rows [Asc c] xs @ sort_rows [Asc c] ys"
  unfolding sort_rows_def
  by (rule sort_key_append) (simp add: assms asc_less_or_eq del: ord_key.simps)

lemma sort_rows_asc_Cons:
  assumes "\<And>y. y \<in> set ys \<Longrightarrow> col x c \<le> col y c"
  shows "sort_rows [Asc c] (x # ys) = x # sort_rows [Asc c] ys"
  using sort_rows_asc_append [of "[x]" ys c] assms by (simp add: sort_rows_def)

lemma sorted_sort_rows_asc:
  "sorted (map (\<lambda>r. col r c) (sort_rows [Asc c] rs))"
proof -
  have "sorted (map (\<lambda>r. [ord_key (Asc c) r]) (sort_rows [Asc c] rs))"
    unfolding sort_rows_def using sorted_sort_key [of "\<lambda>r. map (\<lambda>ob. ord_key ob r) [Asc c]" rs]
    by (simp del: ord_key.simps)
  then show ?thesis
    by (simp add: sorted_map asc_less_or_eq sorted_wrt_iff_nth_less del: ord_key.simps)
qed

lemma sort_rows_asc_id:
  "sorted (map (\<lambda>r. col r c) rs) \<Longrightarrow> sort_rows [Asc c] rs = rs"
proof -
  assume "sorted (map (\<lambda>r. col r c) rs)"
  then have "sorted (map (\<lambda>r. map (\<lambda>ob. ord_key ob r) [Asc c]) rs)"
    by (simp add: sorted_map asc_less_or_eq sorted_wrt_iff_nth_less del: ord_key.simps)
  then show ?thesis
    unfolding sort_rows_def by (rule sort_key_id_if_sorted)
qed

subsection \<open>The rows that the window writes\<close>

lemma lead_rows_Nil [simp]: "lead_rows cs c e [] = []"
  by (simp add: lead_rows_def)

lemma lead_rows_Cons:
  "xs \<noteq> [] \<Longrightarrow> lead_rows cs c e (x # xs) = set_col e (col (hd xs) c) (conform cs x) # lead_rows cs c e xs"
  by (simp add: lead_rows_def lead_Cons)

lemma lead_rows_elem:
  assumes "s \<in> set (lead_rows cs c e xs)"
  shows "\<exists>v x. x \<in> set xs \<and> s = set_col e v (conform cs x)"
proof -
  from set_map2_subset [OF assms [unfolded lead_rows_def]]
  show ?thesis by auto
qed

lemma lead_rows_ts:
  assumes "c \<in> set cs" and "e \<noteq> c"
  shows "map (\<lambda>r. col r c) (lead_rows cs c e xs) = map (\<lambda>r. col r c) xs"
proof -
  have "map (\<lambda>r. col r c) (map2 (set_col e) vs (map (conform cs) xs)) = map (\<lambda>r. col r c) xs"
    if "length vs = length xs" for vs
    using that assms by (induction vs xs rule: list_induct2) auto
  then show ?thesis by (simp add: lead_rows_def)
qed

lemma lead_rows_key:
  assumes "set ks \<subseteq> set cs" and "e \<notin> set ks"
  shows "map (key ks) (lead_rows cs c e xs) = map (key ks) xs"
proof -
  have "map (key ks) (map2 (set_col e) vs (map (conform cs) xs)) = map (key ks) xs"
    if "length vs = length xs" for vs
    using that assms by (induction vs xs rule: list_induct2) (auto simp: key_set_col key_conform)
  then show ?thesis by (simp add: lead_rows_def)
qed

lemma lead_rows_intervals:
  assumes "c \<in> set cs" and "e \<noteq> c"
  shows "intervals c e (lead_rows cs c e xs) = zip (map (\<lambda>r. col r c) xs) (lead c xs)"
proof -
  have l: "lead c (map (conform cs) xs) = lead c xs"
    by (rule lead_map) (simp add: assms)
  have m: "map (\<lambda>r. col r c) (map (conform cs) xs) = map (\<lambda>r. col r c) xs"
    using assms by simp
  from intervals_lead [OF assms(2), of "map (conform cs) xs", unfolded l m]
  show ?thesis by (simp add: lead_rows_def)
qed

lemma scd2_payload_key:
  assumes ks: "set ks \<subseteq> set (columns T)" and c: "c \<in> set (columns T)" and e: "e \<notin> set ks"
  shows "filter (\<lambda>r. key ks r = k) (rows (scd2_payload T src ks c e))
     = lead_rows (columns T @ filter (\<lambda>x. x \<notin> set (columns T)) (columns src)) c e
         (sort_rows [Asc c]
            (filter (\<lambda>r. key ks r = k)
               (filter (\<lambda>r. col r e = None)
                  (filter (\<lambda>l. list_ex (\<lambda>b. matches ks b l) (rows src)) (rows T))
                @ rows src)))"
proof -
  define cC where "cC = columns T @ filter (\<lambda>x. x \<notin> set (columns T)) (columns src)"
  define U where "U = filter (\<lambda>r. col r e = None)
                  (filter (\<lambda>l. list_ex (\<lambda>b. matches ks b l) (rows src)) (rows T))"
  define G where "G p = (let sp = sort_rows [Asc c] p in map2 (set_col e) (lead c sp) sp)" for p
  have kc: "set ks \<subseteq> set cC" and cc: "c \<in> set cC"
    using ks c by (auto simp: cC_def)
  have rows: "rows (scd2_payload T src ks c e)
      = concat (map G (partitions ks (map (conform cC) (U @ rows src))))"
    by (simp add: scd2_payload_def Let_def withColumn_over_def unionByName_def
          join_left_semi_def where_rows_def cC_def U_def G_def [abs_def])
  have "\<exists>y\<in>set p. key ks x = key ks y" if "x \<in> set (G p)" for p x
  proof -
    from that have "x \<in> set (map2 (set_col e) (lead c (sort_rows [Asc c] p)) (sort_rows [Asc c] p))"
      by (simp add: G_def Let_def)
    from set_map2_subset [OF this] show ?thesis
      using e by (auto simp: key_set_col)
  qed
  then have "filter (\<lambda>r. key ks r = k) (concat (map G (partitions ks (map (conform cC) (U @ rows src)))))
      = G (filter (\<lambda>r. key ks r = k) (map (conform cC) (U @ rows src)))"
    by (rule filter_key_concat_partitions)
  also have "filter (\<lambda>r. key ks r = k) (map (conform cC) (U @ rows src))
      = map (conform cC) (filter (\<lambda>r. key ks r = k) (U @ rows src))"
    by (simp add: filter_map comp_def key_conform [OF kc])
  also have "G (map (conform cC) (filter (\<lambda>r. key ks r = k) (U @ rows src)))
      = lead_rows cC c e (sort_rows [Asc c] (filter (\<lambda>r. key ks r = k) (U @ rows src)))"
  proof -
    have "G (map (conform cC) xs) = lead_rows cC c e (sort_rows [Asc c] xs)" for xs
    proof -
      have "sort_rows [Asc c] (map (conform cC) xs) = map (conform cC) (sort_rows [Asc c] xs)"
        by (rule sort_rows_map) (simp add: cc)
      moreover have "lead c (map (conform cC) ys) = lead c ys" for ys
        by (rule lead_map) (simp add: cc)
      ultimately show ?thesis
        by (simp add: G_def Let_def lead_rows_def)
    qed
    then show ?thesis .
  qed
  finally show ?thesis
    by (simp add: rows cC_def U_def)
qed

subsection \<open>Matching on the keys and the effective timestamp\<close>

lemma matches_snoc:
  "matches (ks @ [c]) s t = (matches ks s t \<and> col s c \<noteq> None \<and> col s c = col t c)"
  by (simp add: matches_def)

lemma matches_cong_cols:
  "(\<And>k. k \<in> set mk \<Longrightarrow> col s' k = col s k) \<Longrightarrow> matches mk s' t = matches mk s t"
  by (simp add: matches_def list_all_iff)

lemma matches_versions:
  assumes "None \<notin> set (key ks s)" and "col s c \<noteq> None"
  shows "matches (ks @ [c]) s t = (key ks s = key ks t \<and> col s c = col t c)"
  using assms by (simp add: matches_snoc matches_iff_key)

lemma matches_versionsD:
  "matches (ks @ [c]) s t \<Longrightarrow> key ks s = key ks t \<and> col s c = col t c"
  by (auto simp: matches_snoc dest: matches_key)

lemma upsert_all_rows:
  assumes "resolves mk P" and "resolves mk T" and "resolves (columns T) P"
    and "\<And>t. t \<in> set (rows T) \<Longrightarrow> length (filter (\<lambda>s. matches mk s t) (rows P)) \<le> 1"
  shows "upsert_all mk P T
     = Inr (T\<lparr>rows :=
             map (\<lambda>t. case filter (\<lambda>s. matches mk s t) (rows P) of
                         [] \<Rightarrow> t
                       | s # _ \<Rightarrow> conform (columns T) s) (rows T)
             @ map (conform (columns T))
                 (filter (\<lambda>s. \<not> list_ex (\<lambda>t. matches mk s t) (rows T)) (rows P))\<rparr>)"
proof -
  have "\<not> list_ex (\<lambda>t. 1 < length (filter (\<lambda>s. matches mk s t) (rows P))) (rows T)"
    using assms(4) by (auto simp: list_ex_iff not_less)
  then show ?thesis using assms(1,2,3) by (simp add: upsert_all_def)
qed

subsection \<open>The open row of a history\<close>

lemma history_open_row:
  assumes t: "tiles (intervals c e H)" and nn: "\<And>r. r \<in> set H \<Longrightarrow> col r c \<noteq> None"
  shows "\<exists>h cur. H = h @ [cur] \<and> col cur e = None \<and> (\<forall>x \<in> set h. col x e \<noteq> None)"
proof -
  have "fst iv \<noteq> None" if "iv \<in> set (intervals c e H)" for iv
    using that nn by (auto simp: intervals_def)
  from tiles_last_open [OF t this]
  obtain xs b where ivs: "intervals c e H = xs @ [b]" and b: "snd b = None"
    and xs: "\<forall>a \<in> set xs. snd a \<noteq> None"
    by blast
  from ivs obtain h cs' where H: "H = h @ cs'" and h: "map (\<lambda>r. (col r c, col r e)) h = xs"
    and cs': "map (\<lambda>r. (col r c, col r e)) cs' = [b]"
    unfolding intervals_def by (auto simp: map_eq_append_conv)
  from cs' obtain cur where cur: "cs' = [cur]" "b = (col cur c, col cur e)"
    by auto
  have "col x e \<noteq> None" if "x \<in> set h" for x
  proof -
    from that have "(col x c, col x e) \<in> set xs" unfolding h [symmetric] by auto
    with xs show ?thesis by fastforce
  qed
  with H cur b show ?thesis by auto
qed

lemma filter_sort_rows:
  "filter Q (sort_rows os rs) = sort_rows os (filter Q rs)"
  by (simp add: sort_rows_def filter_sort)

lemma open_row_unique:
  assumes H: "sort_rows os rs = h @ [cur]" and cur: "col cur e = None"
    and h: "\<forall>x \<in> set h. col x e \<noteq> None"
  shows "filter (\<lambda>r. col r e = None) rs = [cur]"
proof -
  have "filter (\<lambda>r. col r e = None) (sort_rows os rs) = [cur]"
    using cur h by (simp add: H filter_empty_conv)
  then have "sort_rows os (filter (\<lambda>r. col r e = None) rs) = [cur]"
    by (simp add: filter_sort_rows)
  then show ?thesis
    unfolding sort_rows_def by (rule sort_key_singletonD)
qed

lemma versions_okD:
  assumes "versions_ok ks c rs"
  shows "\<And>r. r \<in> set rs \<Longrightarrow> col r c \<noteq> None"
    and "\<And>r r'. r \<in> set rs \<Longrightarrow> r' \<in> set rs \<Longrightarrow> key ks r = key ks r' \<Longrightarrow> col r c = col r' c
           \<Longrightarrow> r = r'"
    and "distinct rs"
proof -
  from assms have nn: "list_all (\<lambda>r. col r c \<noteq> None) rs"
    and d: "distinct (map (\<lambda>r. (key ks r, col r c)) rs)"
    by (simp_all add: versions_ok_def)
  show "\<And>r. r \<in> set rs \<Longrightarrow> col r c \<noteq> None"
    using nn by (simp add: list_all_iff)
  have "inj_on (\<lambda>r. (key ks r, col r c)) (set rs)"
    using d by (simp add: distinct_map)
  then show "\<And>r r'. r \<in> set rs \<Longrightarrow> r' \<in> set rs \<Longrightarrow> key ks r = key ks r' \<Longrightarrow> col r c = col r' c
           \<Longrightarrow> r = r'"
    by (auto dest: inj_onD)
  show "distinct rs" using d by (simp add: distinct_map)
qed

lemma arrives_laterD:
  "arrives_later ks c B R \<Longrightarrow> b \<in> set B \<Longrightarrow> r \<in> set R \<Longrightarrow> key ks r = key ks b
     \<Longrightarrow> col r c < col b c"
  by (auto simp: arrives_later_def list_all_iff)

lemma I1_D:
  "I1 ks c e rs \<Longrightarrow> r \<in> set rs \<Longrightarrow> tiles (intervals c e (history ks c (key ks r) rs))"
  by (auto simp: I1_def list_all_iff)

lemma I1_I:
  assumes "\<And>k. filter (\<lambda>r. key ks r = k) rs \<noteq> [] \<Longrightarrow> tiles (intervals c e (history ks c k rs))"
  shows "I1 ks c e rs"
proof -
  have "tiles (intervals c e (history ks c k rs))" if "k \<in> key ks ` set rs" for k
  proof -
    from that have "filter (\<lambda>r. key ks r = k) rs \<noteq> []"
      by (auto simp: filter_empty_conv)
    then show ?thesis by (rule assms)
  qed
  then show ?thesis by (simp add: I1_def list_all_iff)
qed

lemma filter_filter_implied:
  "(\<And>x. x \<in> set xs \<Longrightarrow> Q x \<Longrightarrow> Q' x) \<Longrightarrow> filter Q xs = filter Q (filter Q' xs)"
  by (induction xs) auto

lemma intervals_append [simp]:
  "intervals c e (xs @ ys) = intervals c e xs @ intervals c e ys"
  by (simp add: intervals_def)

lemma intervals_map_conform:
  "c \<in> set cs \<Longrightarrow> e \<in> set cs \<Longrightarrow> intervals c e (map (conform cs) xs) = intervals c e xs"
  by (simp add: intervals_def)

text \<open>The rows of one key after the upsert, ordered: the old history with the open row
  rewritten, then the new rows.\<close>

lemma tiles_extended:
  assumes old: "tiles (intervals c e (h @ [cur]))"
    and closed: "\<forall>x \<in> set h. col x e \<noteq> None"
    and et: "e \<noteq> c" and cs: "c \<in> set cs"
    and ne: "Bs \<noteq> []"
    and nn: "col cur c \<noteq> None" "\<And>b. b \<in> set Bs \<Longrightarrow> col b c \<noteq> None"
  shows "tiles (intervals c e h @ intervals c e (lead_rows cs c e (cur # Bs)))"
proof -
  define new where "new = intervals c e (lead_rows cs c e (cur # Bs))"
  have new: "new = zip (map (\<lambda>r. col r c) (cur # Bs)) (lead c (cur # Bs))"
    unfolding new_def using cs et by (rule lead_rows_intervals)
  then obtain a rest where ar: "new = a # rest" and a: "fst a = col cur c"
    using ne by (cases Bs) auto
  have cn: "consecutive new"
    unfolding new by (rule consecutive_zip_lead)
  have one: "length (filter (\<lambda>iv. snd iv = None) new) = 1"
    unfolding new using nn by (intro lead_one_open) auto
  from old have "consecutive (intervals c e h @ [(col cur c, col cur e)])"
    by (simp add: tiles_def intervals_def)
  then have "consecutive (intervals c e h @ [a])"
    by (rule consecutive_change_last) (simp add: a)
  then have "consecutive (intervals c e h @ a # rest)"
    using cn [unfolded ar] by (rule consecutive_append_single)
  moreover have "filter (\<lambda>iv. snd iv = None) (intervals c e h) = []"
    using closed by (auto simp: filter_empty_conv intervals_def)
  ultimately show ?thesis
    using one by (simp add: tiles_def new_def [symmetric] ar)
qed

lemma tiles_fresh:
  assumes et: "e \<noteq> c" and cs: "c \<in> set cs" and ne: "Bs \<noteq> []"
    and nn: "\<And>b. b \<in> set Bs \<Longrightarrow> col b c \<noteq> None"
  shows "tiles (intervals c e (lead_rows cs c e Bs))"
  unfolding lead_rows_intervals [OF cs et] tiles_def
  using consecutive_zip_lead [of c Bs] lead_one_open [OF ne nn] by simp

lemma distinct_map_sort_key:
  "distinct (map f (sort_key g xs)) = distinct (map f xs)"
proof -
  have "distinct (map f ys) = (card (f ` set ys) = length ys)" for ys
    using card_distinct [of "map f ys"] distinct_card [of "map f ys"] by auto
  then show ?thesis by simp
qed

lemma distinct_map_by_group:
  assumes "\<And>k. distinct (map g (filter (\<lambda>x. f x = k) xs))"
    and "\<And>x y. g x = g y \<Longrightarrow> f x = f y"
  shows "distinct (map g xs)"
  using assms(1)
proof (induction xs)
  case Nil
  then show ?case by simp
next
  case (Cons a xs)
  have "distinct (map g (filter (\<lambda>x. f x = k) xs))" for k
    using Cons.prems [of k] by (simp split: if_splits)
  then have "distinct (map g xs)" by (rule Cons.IH)
  moreover have "g a \<notin> g ` set xs"
  proof
    assume "g a \<in> g ` set xs"
    then obtain y where y: "y \<in> set xs" "g y = g a" by auto
    then have "f y = f a" by (rule_tac assms(2))
    with y have "y \<in> set (filter (\<lambda>x. f x = f a) xs)" by simp
    then have "g y \<in> g ` set (filter (\<lambda>x. f x = f a) xs)" by (rule imageI)
    then have "g a \<in> g ` set (filter (\<lambda>x. f x = f a) xs)" by (simp only: y(2))
    with Cons.prems [of "f a"] show False by simp
  qed
  ultimately show ?case by simp
qed

lemma map_pair_zip: "map (\<lambda>r. (f r, g r)) xs = zip (map f xs) (map g xs)"
  by (induction xs) auto

lemma scd2_upsert_tiles:
  assumes kT: "set ks \<subseteq> set (columns T)" and tT: "c \<in> set (columns T)"
    and eT: "e \<in> set (columns T)" and ek: "e \<notin> set ks" and et: "e \<noteq> c"
    and inv: "I1 ks c e (rows T)" and vT: "versions_ok ks c (rows T)"
    and nnB: "non_null_keys ks (rows src)" and vB: "versions_ok ks c (rows src)"
    and late: "arrives_later ks c (rows src) (rows T)"
  shows "\<exists>T'. upsert_all (ks @ [c]) (scd2_payload T src ks c e) T = Inr T'
            \<and> columns T' = columns T \<and> I1 ks c e (rows T') \<and> versions_ok ks c (rows T')"
proof -
  define R where "R = rows T"
  define B where "B = rows src"
  define cT where "cT = columns T"
  define cC where "cC = columns T @ filter (\<lambda>x. x \<notin> set (columns T)) (columns src)"
  define mk where "mk = ks @ [c]"
  define P where "P = rows (scd2_payload T src ks c e)"
  define U where "U = filter (\<lambda>r. col r e = None)
                  (filter (\<lambda>l. list_ex (\<lambda>b. matches ks b l) B) R)"
  define W where "W = lead_rows cC c e"
  define Rk where "Rk k = filter (\<lambda>r. key ks r = k) R" for k
  define Bk where "Bk k = filter (\<lambda>r. key ks r = k) B" for k
  define Bs where "Bs k = sort_rows [Asc c] (Bk k)" for k
  define F where "F t = filter (\<lambda>s. matches mk s t) P" for t
  define upd where "upd t = (case F t of [] \<Rightarrow> t | s # _ \<Rightarrow> conform cT s)" for t
  define unm where "unm s = (\<not> list_ex (\<lambda>t. matches mk s t) R)" for s

  have kC: "set ks \<subseteq> set cC" and tC: "c \<in> set cC"
    using kT tT by (auto simp: cC_def)
  have mkC: "set mk \<subseteq> set cC" and emk: "e \<notin> set mk"
    using kC tC ek et by (auto simp: mk_def)

  note tsR = versions_okD(1) [OF vT, folded R_def]
  note injR = versions_okD(2) [OF vT, folded R_def]
  note tsB = versions_okD(1) [OF vB, folded B_def]
  have nnB': "None \<notin> set (key ks b)" if "b \<in> set B" for b
    using nnB that by (simp add: non_null_keys_def list_all_iff B_def)
  have lateD: "col r c < col b c"
    if "b \<in> set B" "r \<in> set R" "key ks r = key ks b" for b r
    using arrives_laterD [OF late] that by (simp add: B_def R_def)

  text \<open>A row of the batch matches no row of the table.\<close>
  have never: "\<not> matches mk b t" if "b \<in> set B" "t \<in> set R" for b t
  proof
    assume "matches mk b t"
    then have "key ks b = key ks t" "col b c = col t c"
      by (auto simp: mk_def dest: matches_versionsD)
    with lateD [OF that] show False by simp
  qed

  have mW: "matches mk (set_col e v (conform cC x)) t = matches mk x t" for v x t
    by (rule matches_cong_cols) (use mkC emk in auto)

  have W_never: "\<not> matches mk s t" if "s \<in> set (W xs)" "set xs \<subseteq> set B" "t \<in> set R" for s xs t
  proof -
    from lead_rows_elem [OF that(1) [unfolded W_def]]
    obtain v x where "x \<in> set xs" "s = set_col e v (conform cC x)" by blast
    with never [of x t] that(2,3) show ?thesis by (auto simp: mW)
  qed

  text \<open>The payload, key by key.\<close>
  have Uk_in: "filter (\<lambda>r. key ks r = k) U = filter (\<lambda>r. col r e = None) (Rk k)"
    if "k \<in> key ks ` set B" for k
  proof -
    from that obtain b where b: "b \<in> set B" "key ks b = k" by auto
    have "list_ex (\<lambda>b. matches ks b l) B" if "key ks l = k" for l
    proof -
      have "matches ks b l"
        using b that nnB' [OF b(1)] by (simp add: matches_iff_key)
      with b(1) show ?thesis unfolding list_ex_iff by blast
    qed
    then have "filter (\<lambda>r. key ks r = k) (filter (\<lambda>l. list_ex (\<lambda>b. matches ks b l) B) R) = Rk k"
      by (auto simp: Rk_def intro: filter_cong)
    moreover have "filter (\<lambda>r. key ks r = k) (filter (\<lambda>r. col r e = None) X)
        = filter (\<lambda>r. col r e = None) (filter (\<lambda>r. key ks r = k) X)" for X :: "row list"
      by (induction X) auto
    ultimately show ?thesis
      by (simp only: U_def)
  qed
  have Uk_out: "filter (\<lambda>r. key ks r = k) U = []" if "k \<notin> key ks ` set B" for k
  proof -
    have "key ks l \<noteq> k" if "list_ex (\<lambda>b. matches ks b l) B" for l
    proof -
      from that obtain b where "b \<in> set B" "matches ks b l"
        by (auto simp: list_ex_iff)
      then have "key ks l \<in> key ks ` set B"
        by (metis imageI matches_key)
      with \<open>k \<notin> key ks ` set B\<close> show ?thesis by blast
    qed
    then show ?thesis by (auto simp: U_def filter_empty_conv)
  qed
  have Pk: "filter (\<lambda>r. key ks r = k) P
              = W (sort_rows [Asc c] (filter (\<lambda>r. key ks r = k) U @ Bk k))" for k
  proof -
    have "filter (\<lambda>r. key ks r = k) (U @ B) = filter (\<lambda>r. key ks r = k) U @ Bk k"
      by (simp only: filter_append Bk_def)
    with scd2_payload_key [OF kT tT ek, of k src] show ?thesis
      by (simp only: P_def W_def cC_def U_def B_def R_def)
  qed

  have BsB: "set (Bs k) \<subseteq> set B" for k
    by (auto simp: Bs_def Bk_def)
  have Bs_key: "key ks b = k" if "b \<in> set (Bs k)" for b k
    using that by (simp add: Bs_def Bk_def)
  have Rk_in: "t \<in> set R \<and> key ks t = k" if "t \<in> set (Rk k)" for t k
    using that by (simp add: Rk_def)

  have shape: "(Rk k = [] \<or> k \<notin> key ks ` set B) \<and> filter (\<lambda>r. key ks r = k) P = W (Bs k)
      \<or> (\<exists>h cur. sort_rows [Asc c] (Rk k) = h @ [cur] \<and> col cur e = None
            \<and> (\<forall>x \<in> set h. col x e \<noteq> None) \<and> Bs k \<noteq> [] \<and> k \<in> key ks ` set B
            \<and> filter (\<lambda>r. key ks r = k) P = W (cur # Bs k))" for k
  proof (cases "k \<in> key ks ` set B")
    case False
    then have "Bk k = []" by (auto simp: Bk_def filter_empty_conv)
    with Uk_out [OF False] Pk [of k] have "filter (\<lambda>r. key ks r = k) P = W (Bs k)"
      by (simp add: Bs_def)
    with False show ?thesis by blast
  next
    case True
    show ?thesis
    proof (cases "Rk k = []")
      case True
      with Uk_in [OF \<open>k \<in> key ks ` set B\<close>] Pk [of k]
      have "filter (\<lambda>r. key ks r = k) P = W (Bs k)"
        by (simp add: Bs_def)
      with True show ?thesis by blast
    next
      case False
      then obtain r where r: "r \<in> set R" "key ks r = k"
        by (auto simp: Rk_def filter_empty_conv)
      have Hdef: "history ks c k R = sort_rows [Asc c] (Rk k)"
        by (simp add: history_def Rk_def)
      from I1_D [OF inv, of r] r have "tiles (intervals c e (sort_rows [Asc c] (Rk k)))"
        by (simp add: R_def [symmetric] Hdef)
      moreover have "col x c \<noteq> None" if "x \<in> set (sort_rows [Asc c] (Rk k))" for x
        using that tsR by (simp add: Rk_def)
      ultimately obtain h cur where H: "sort_rows [Asc c] (Rk k) = h @ [cur]"
        and cur: "col cur e = None" and h: "\<forall>x \<in> set h. col x e \<noteq> None"
        using history_open_row by blast
      from open_row_unique [OF H cur h] Uk_in [OF True]
      have Uk: "filter (\<lambda>r. key ks r = k) U = [cur]" by simp
      have "cur \<in> set (sort_rows [Asc c] (Rk k))" by (simp add: H)
      then have curR: "cur \<in> set R" "key ks cur = k" by (simp_all add: Rk_def)
      have "col cur c \<le> col b c" if "b \<in> set (Bk k)" for b
        using lateD [of b cur] that curR by (simp add: Bk_def less_imp_le)
      then have "sort_rows [Asc c] (cur # Bk k) = cur # Bs k"
        unfolding Bs_def by (rule sort_rows_asc_Cons)
      with Pk [of k] Uk have "filter (\<lambda>r. key ks r = k) P = W (cur # Bs k)"
        by simp
      moreover have "Bs k \<noteq> []"
        using True by (auto simp: Bs_def Bk_def sort_rows_def filter_empty_conv simp flip: set_empty)
      ultimately show ?thesis using H cur h True by blast
    qed
  qed

  text \<open>Which source rows a row of the table matches.\<close>
  have F_key: "F t = filter (\<lambda>s. matches mk s t) (filter (\<lambda>r. key ks r = key ks t) P)" for t
    unfolding F_def
    by (rule filter_filter_implied) (auto simp: mk_def dest: matches_versionsD)
  have F_W: "filter (\<lambda>s. matches mk s t) (W (Bs k)) = []" if "t \<in> set R" for t k
    using W_never [OF _ BsB that] by (auto simp: filter_empty_conv)
  have cur_matches: "matches mk cur t = (t = cur)"
    if "cur \<in> set R" "key ks cur \<in> key ks ` set B" "t \<in> set R" for cur t
  proof -
    from that(2) obtain b where "b \<in> set B" "key ks b = key ks cur" by auto
    with nnB' [of b] have "None \<notin> set (key ks cur)" by simp
    then have "matches mk cur t = (key ks cur = key ks t \<and> col cur c = col t c)"
      unfolding mk_def using tsR [OF that(1)] by (rule matches_versions)
    with injR [OF that(1,3)] show ?thesis by auto
  qed

  have F_cases: "F t = [] \<or> (\<exists>s. F t = [s] \<and> key ks s = key ks t \<and> col s c = col t c)"
    if "t \<in> set R" for t
  proof -
    from shape [of "key ks t"]
    have "filter (\<lambda>r. key ks r = key ks t) P = W (Bs (key ks t))
      \<or> (\<exists>cur. Bs (key ks t) \<noteq> []
            \<and> filter (\<lambda>r. key ks r = key ks t) P = W (cur # Bs (key ks t)))"
      by blast
    then show ?thesis
    proof (elim disjE conjE exE)
      assume "filter (\<lambda>r. key ks r = key ks t) P = W (Bs (key ks t))"
      then show ?thesis using F_W [OF that] by (simp add: F_key)
    next
      fix cur
      assume Pk': "filter (\<lambda>r. key ks r = key ks t) P = W (cur # Bs (key ks t))"
        and ne: "Bs (key ks t) \<noteq> []"
      define s where "s = set_col e (col (hd (Bs (key ks t))) c) (conform cC cur)"
      have "F t = filter (\<lambda>s. matches mk s t) (s # W (Bs (key ks t)))"
        by (simp add: F_key Pk' W_def lead_rows_Cons [OF ne] s_def)
      then have Ft: "F t = (if matches mk s t then [s] else [])"
        using F_W [OF that] by simp
      show ?thesis
      proof (cases "matches mk s t")
        case True
        then have "key ks s = key ks t \<and> col s c = col t c"
          unfolding mk_def by (rule matches_versionsD)
        with Ft True show ?thesis by simp
      next
        case False
        with Ft show ?thesis by simp
      qed
    qed
  qed
  then have le1: "length (F t) \<le> 1" if "t \<in> set R" for t
    using that by fastforce
  have upd_keep: "key ks (upd t) = key ks t \<and> col (upd t) c = col t c" if "t \<in> set R" for t
    using F_cases [OF that] kT tT by (auto simp: upd_def key_conform cT_def)

  text \<open>The merge succeeds, and these are the rows it leaves.\<close>
  define T' where "T' = T\<lparr>rows := map upd R @ map (conform cT) (filter unm P)\<rparr>"
  have up: "upsert_all mk (scd2_payload T src ks c e) T = Inr T'"
  proof -
    have cols: "columns (scd2_payload T src ks c e) = add_column e cC"
      by (simp add: scd2_payload_def Let_def unionByName_def cC_def where_rows_def
            join_left_semi_def)
    then have "resolves mk (scd2_payload T src ks c e)"
      using mkC by (auto simp: resolves_subset)
    moreover have "resolves mk T"
      using kT tT by (auto simp: resolves_subset mk_def)
    moreover have "resolves (columns T) (scd2_payload T src ks c e)"
      using cols by (auto simp: resolves_subset cC_def)
    moreover have "length (filter (\<lambda>s. matches mk s t) (rows (scd2_payload T src ks c e))) \<le> 1"
      if "t \<in> set (rows T)" for t
      using le1 [of t] that by (simp add: F_def P_def R_def)
    ultimately show ?thesis
      unfolding T'_def upd_def [abs_def] F_def [abs_def] unm_def [abs_def] P_def R_def cT_def
      by (rule upsert_all_rows)
  qed

  have kcT: "key ks (conform cT s) = key ks s" for s
    using kT by (simp add: key_conform cT_def)
  have T'k: "filter (\<lambda>r. key ks r = k) (rows T')
      = map upd (Rk k) @ map (conform cT) (filter unm (filter (\<lambda>r. key ks r = k) P))" for k
  proof -
    have "filter (\<lambda>r. key ks r = k) (map upd R) = map upd (Rk k)"
      unfolding Rk_def filter_map comp_def
      by (rule arg_cong [where f = "map upd"], rule filter_cong) (simp_all add: upd_keep)
    moreover have "filter (\<lambda>r. key ks r = k) (map (conform cT) (filter unm P))
        = map (conform cT) (filter unm (filter (\<lambda>r. key ks r = k) P))"
      by (simp add: filter_map comp_def kcT conj_commute)
    ultimately show ?thesis by (simp add: T'_def)
  qed

  have unm_W: "filter unm (W (Bs k)) = W (Bs k)" for k
    using W_never [OF _ BsB] by (auto simp: unm_def list_ex_iff filter_id_conv)

  have hist: "history ks c k (rows T')
      = map upd (sort_rows [Asc c] (Rk k)) @ map (conform cT) (W (Bs k))" for k
  proof -
    have unP: "filter unm (filter (\<lambda>r. key ks r = k) P) = W (Bs k)"
    proof -
      from shape [of k]
      have "filter (\<lambda>r. key ks r = k) P = W (Bs k)
        \<or> (\<exists>h cur. sort_rows [Asc c] (Rk k) = h @ [cur] \<and> Bs k \<noteq> [] \<and> k \<in> key ks ` set B
              \<and> filter (\<lambda>r. key ks r = k) P = W (cur # Bs k))"
        by blast
      then show ?thesis
      proof (elim disjE conjE exE)
        assume "filter (\<lambda>r. key ks r = k) P = W (Bs k)"
        then show ?thesis by (simp add: unm_W)
      next
        fix h cur
        assume H: "sort_rows [Asc c] (Rk k) = h @ [cur]" and ne: "Bs k \<noteq> []"
          and kB: "k \<in> key ks ` set B"
          and Pk': "filter (\<lambda>r. key ks r = k) P = W (cur # Bs k)"
        have "cur \<in> set (sort_rows [Asc c] (Rk k))" by (simp add: H)
        then have curR: "cur \<in> set R" "key ks cur = k" by (simp_all add: Rk_def)
        have "matches mk cur cur"
          using cur_matches [of cur cur] curR kB by simp
        then have "matches mk (set_col e (col (hd (Bs k)) c) (conform cC cur)) cur"
          by (simp add: mW)
        then have "\<not> unm (set_col e (col (hd (Bs k)) c) (conform cC cur))"
          using curR(1) by (auto simp: unm_def list_ex_iff)
        then show ?thesis
          by (simp add: Pk' W_def lead_rows_Cons [OF ne] unm_W [unfolded W_def])
      qed
    qed
    have tsW: "map (\<lambda>r. col r c) (map (conform cT) (W (Bs k))) = map (\<lambda>r. col r c) (Bs k)"
      using tT lead_rows_ts [OF tC et, of "Bs k"] by (simp add: W_def cT_def comp_def)
    have ord: "col x c \<le> col y c"
      if "x \<in> set (map upd (Rk k))" "y \<in> set (map (conform cT) (W (Bs k)))" for x y
    proof -
      from that(1) obtain t where t: "t \<in> set R" "key ks t = k" "col x c = col t c"
        using upd_keep by (auto simp: Rk_def)
      from that(2) have "col y c \<in> set (map (\<lambda>r. col r c) (map (conform cT) (W (Bs k))))"
        by (metis image_eqI list.set_map)
      then obtain b where b: "b \<in> set (Bs k)" "col y c = col b c"
        unfolding tsW by auto
      from lateD [of b t] b(1) t BsB [of k] Bs_key [OF b(1)] show ?thesis
        by (auto simp: b(2) t(3) less_imp_le)
    qed
    have s1: "sort_rows [Asc c] (map upd (Rk k)) = map upd (sort_rows [Asc c] (Rk k))"
      by (rule sort_rows_map_on) (use upd_keep in \<open>auto simp: Rk_def intro!: ord_key_Asc_col\<close>)
    have "sorted (map (\<lambda>r. col r c) (Bs k))"
      unfolding Bs_def by (rule sorted_sort_rows_asc)
    then have s2: "sort_rows [Asc c] (map (conform cT) (W (Bs k))) = map (conform cT) (W (Bs k))"
      by (intro sort_rows_asc_id) (simp only: tsW)
    have "history ks c k (rows T')
        = sort_rows [Asc c] (map upd (Rk k) @ map (conform cT) (W (Bs k)))"
      by (simp only: history_def T'k unP)
    also have "\<dots> = sort_rows [Asc c] (map upd (Rk k)) @ sort_rows [Asc c] (map (conform cT) (W (Bs k)))"
      using ord by (rule sort_rows_asc_append)
    finally show ?thesis by (simp only: s1 s2)
  qed

  have ivs: "intervals c e (history ks c k (rows T'))
      = intervals c e (map upd (sort_rows [Asc c] (Rk k))) @ intervals c e (W (Bs k))" for k
    using tT eT by (simp add: hist intervals_map_conform cT_def)
  have old: "tiles (intervals c e (sort_rows [Asc c] (Rk k)))" if "Rk k \<noteq> []" for k
  proof -
    from that obtain r where r: "r \<in> set R" "key ks r = k"
      by (auto simp: Rk_def filter_empty_conv)
    from I1_D [OF inv, of r] r show ?thesis
      by (simp add: R_def [symmetric] history_def Rk_def)
  qed
  have iN: "intervals c e [] = []"
    by (simp add: intervals_def)
  have BsN: "col b c \<noteq> None" if "b \<in> set (Bs k)" for b k
    using that BsB tsB by blast

  have tl: "tiles (intervals c e (history ks c k (rows T')))"
    if ne: "filter (\<lambda>r. key ks r = k) (rows T') \<noteq> []" for k
  proof -
    from ne have "history ks c k (rows T') \<noteq> []"
      by (simp add: history_def sort_rows_def flip: set_empty)
    then have RB: "Rk k \<noteq> [] \<or> Bs k \<noteq> []"
      unfolding hist by (auto simp: sort_rows_def W_def)
    from shape [of k] show ?thesis
    proof (elim disjE conjE exE)
      assume "Rk k = []"
      with RB have "Bs k \<noteq> []" by simp
      have "tiles (intervals c e (lead_rows cC c e (Bs k)))"
        using et tC \<open>Bs k \<noteq> []\<close> BsN [of _ k] by (rule tiles_fresh)
      with \<open>Rk k = []\<close> show ?thesis
        by (simp add: ivs W_def sort_rows_def iN)
    next
      assume kB: "k \<notin> key ks ` set B" and Pk': "filter (\<lambda>r. key ks r = k) P = W (Bs k)"
      from kB have "Bk k = []"
        by (auto simp: Bk_def filter_empty_conv)
      then have "Bs k = []"
        by (simp add: Bs_def sort_rows_def)
      with RB have "Rk k \<noteq> []" by simp
      have "upd t = t" if "t \<in> set (sort_rows [Asc c] (Rk k))" for t
      proof -
        from that have "key ks t = k" by (simp add: Rk_def)
        then have "F t = []"
          by (simp add: F_key Pk' \<open>Bs k = []\<close> W_def)
        then show ?thesis by (simp add: upd_def)
      qed
      then have "map upd (sort_rows [Asc c] (Rk k)) = sort_rows [Asc c] (Rk k)"
        by (rule map_idI)
      with old [OF \<open>Rk k \<noteq> []\<close>] \<open>Bs k = []\<close> show ?thesis
        by (simp add: ivs W_def iN)
    next
      fix h cur
      assume H: "sort_rows [Asc c] (Rk k) = h @ [cur]" and cur: "col cur e = None"
        and h: "\<forall>x \<in> set h. col x e \<noteq> None" and nb: "Bs k \<noteq> []"
        and kB: "k \<in> key ks ` set B"
        and Pk': "filter (\<lambda>r. key ks r = k) P = W (cur # Bs k)"
      define s where "s = set_col e (col (hd (Bs k)) c) (conform cC cur)"
      have WP: "W (cur # Bs k) = s # W (Bs k)"
        by (simp add: W_def lead_rows_Cons [OF nb] s_def)
      have inRk: "x \<in> set R \<and> key ks x = k" if "x \<in> set (h @ [cur])" for x
        using that unfolding H [symmetric] by (simp add: Rk_def)
      have curR: "cur \<in> set R" "key ks cur = k"
        using inRk [of cur] by simp_all
      have "distinct (sort_rows [Asc c] (Rk k))"
        using versions_okD(3) [OF vT] by (simp add: sort_rows_def Rk_def R_def)
      then have cur_h: "cur \<notin> set h"
        by (simp add: H)
      have Fx: "F x = (if x = cur then [s] else [])" if "x \<in> set (h @ [cur])" for x
      proof -
        have "matches mk s x = (x = cur)"
          using cur_matches [of cur x] curR kB inRk [OF that] by (simp add: s_def mW)
        moreover have "F x = filter (\<lambda>s. matches mk s x) (s # W (Bs k))"
          using inRk [OF that] by (simp add: F_key Pk' WP)
        moreover have "filter (\<lambda>s. matches mk s x) (W (Bs k)) = []"
          using F_W [of x k] inRk [OF that] by simp
        ultimately show ?thesis
          by (simp only: filter.simps split: if_splits)
      qed
      have "upd x = x" if "x \<in> set h" for x
        using Fx [of x] that cur_h by (auto simp: upd_def)
      then have "map upd h = h" by (rule map_idI)
      moreover have "upd cur = conform cT s"
        using Fx [of cur] by (simp add: upd_def)
      ultimately have a: "map upd (sort_rows [Asc c] (Rk k)) = h @ [conform cT s]"
        by (simp add: H)
      have b: "intervals c e (map (conform cT) [s]) = intervals c e [s]"
        using tT eT unfolding cT_def by (rule intervals_map_conform)
      have "intervals c e (history ks c k (rows T'))
          = intervals c e (h @ map (conform cT) [s]) @ intervals c e (W (Bs k))"
        by (simp add: ivs a)
      also have "\<dots> = intervals c e h @ intervals c e ([s] @ W (Bs k))"
        by (simp only: intervals_append b append_assoc)
      finally have "intervals c e (history ks c k (rows T'))
          = intervals c e h @ intervals c e (W (cur # Bs k))"
        by (simp add: WP)
      moreover have "Rk k \<noteq> []"
        using H by (auto simp: sort_rows_def simp flip: set_empty)
      from old [OF this] have "tiles (intervals c e (h @ [cur]))"
        by (simp only: H)
      then have "tiles (intervals c e h @ intervals c e (lead_rows cC c e (cur # Bs k)))"
        using h et tC nb tsR [OF curR(1)] BsN [of _ k] by (rule tiles_extended)
      ultimately show ?thesis by (simp add: W_def)
    qed
  qed
  have "I1 ks c e (rows T')"
    using tl by (rule I1_I)

  text \<open>One version per key and effective timestamp, again.\<close>
  define kt where "kt r = (key ks r, col r c)" for r :: row
  have kt_hist: "map kt (history ks c k (rows T'))
      = map kt (sort_rows [Asc c] (Rk k)) @ map kt (Bs k)" for k
  proof -
    have "map kt (map upd (sort_rows [Asc c] (Rk k))) = map kt (sort_rows [Asc c] (Rk k))"
      using upd_keep by (simp add: kt_def Rk_def)
    moreover have "map kt (map (conform cT) (W (Bs k))) = map kt (Bs k)"
    proof -
      have "map kt (map (conform cT) (W (Bs k))) = map kt (W (Bs k))"
        using tT by (simp add: kt_def kcT) (simp add: cT_def)
      also have "\<dots> = zip (map (key ks) (W (Bs k))) (map (\<lambda>r. col r c) (W (Bs k)))"
        unfolding kt_def [abs_def] by (rule map_pair_zip)
      also have "\<dots> = zip (map (key ks) (Bs k)) (map (\<lambda>r. col r c) (Bs k))"
        unfolding W_def by (simp only: lead_rows_key [OF kC ek] lead_rows_ts [OF tC et])
      also have "\<dots> = map kt (Bs k)"
        unfolding kt_def [abs_def] by (rule map_pair_zip [symmetric])
      finally show ?thesis .
    qed
    ultimately show ?thesis by (simp add: hist)
  qed
  have dR: "distinct (map kt R)" and dB: "distinct (map kt B)"
    using vT vB by (simp_all add: versions_ok_def kt_def [abs_def] R_def B_def)
  have d_hist: "distinct (map kt (history ks c k (rows T')))" for k
  proof -
    have "distinct (map kt (sort_rows [Asc c] (Rk k)))"
      unfolding sort_rows_def distinct_map_sort_key Rk_def using dR by (rule distinct_map_filter)
    moreover have "distinct (map kt (Bs k))"
      unfolding Bs_def sort_rows_def distinct_map_sort_key Bk_def using dB by (rule distinct_map_filter)
    moreover have "kt r \<noteq> kt b" if "r \<in> set (sort_rows [Asc c] (Rk k))" "b \<in> set (Bs k)" for r b
    proof
      assume "kt r = kt b"
      then have "key ks r = key ks b" "col r c = col b c" by (simp_all add: kt_def)
      moreover have "r \<in> set R" "b \<in> set B" using that BsB by (auto simp: Rk_def)
      ultimately show False using lateD [of b r] by simp
    qed
    then have "set (map kt (sort_rows [Asc c] (Rk k))) \<inter> set (map kt (Bs k)) = {}"
      by (auto simp del: set_sort_rows) metis
    ultimately show ?thesis
      unfolding kt_hist distinct_append by blast
  qed
  have "distinct (map kt (filter (\<lambda>r. key ks r = k) (rows T')))" for k
    using d_hist [of k] by (simp add: history_def sort_rows_def distinct_map_sort_key)
  then have "distinct (map kt (rows T'))"
    by (rule distinct_map_by_group) (simp add: kt_def)
  moreover have "col r c \<noteq> None" if "r \<in> set (rows T')" for r
  proof -
    from that have "r \<in> set (history ks c (key ks r) (rows T'))"
      by (simp add: history_def)
    then have "kt r \<in> set (map kt (history ks c (key ks r) (rows T')))"
      by (metis image_eqI list.set_map)
    then have "kt r \<in> kt ` set (Rk (key ks r)) \<union> kt ` set (Bs (key ks r))"
      unfolding kt_hist by simp
    then obtain x where "x \<in> set R \<union> set B" "kt r = kt x"
      using BsB by (auto simp: Rk_def)
    then show ?thesis using tsR tsB by (auto simp: kt_def)
  qed
  ultimately have "versions_ok ks c (rows T')"
    by (simp add: versions_ok_def list_all_iff kt_def [abs_def])
  moreover have "columns T' = columns T"
    by (simp add: T'_def)
  ultimately show ?thesis
    using up \<open>I1 ks c e (rows T')\<close> by (auto simp: mk_def)
qed

text \<open>
  C1, as the specification states it, fails: a table holds the intervals \<open>[1, 5)\<close> and
  \<open>[5, open)\<close> of key 1 and satisfies I1; the batch brings \<open>effective_ts = 3\<close> for that key.
  Only the open row is read back and recomputed, so the merge inserts \<open>[3, 5)\<close> and
  leaves \<open>[1, 5)\<close> as it is: the intervals of key 1 overlap and I1 fails.
\<close>

theorem scd_type2_middle_counterexample:
  "holds_I1 [''id''] ''ts'' ''end'' (tables history_store ''/t'')
   \<and> fst (scd history_store (ForPath ''/t'') middle_source [''id''] ''ts'' (Some ''end'') 2 ''u'')
       = Inr (ForPath ''/t'')
   \<and> tables (snd (scd history_store (ForPath ''/t'') middle_source [''id''] ''ts'' (Some ''end'') 2
                     ''u'')) ''/t''
       = Some \<lparr>columns = [''id'', ''ts'', ''end''],
               rows = [[(''id'', Some 1), (''ts'', Some 1), (''end'', Some 5)],
                       [(''id'', Some 1), (''ts'', Some 5), (''end'', None)],
                       [(''id'', Some 1), (''ts'', Some 3), (''end'', Some 5)]]\<rparr>
   \<and> \<not> holds_I1 [''id''] ''ts'' ''end''
         (tables (snd (scd history_store (ForPath ''/t'') middle_source [''id''] ''ts'' (Some ''end'')
                         2 ''u'')) ''/t'')"
  by code_simp


text \<open>
  C1, amended.  The table satisfies I1 and has one row per key and \<open>effective_ts\<close>, every
  \<open>effective_ts\<close> present; the batch has no NULL key, one row per key and \<open>effective_ts\<close>,
  and each of its rows is later than every row the table has for its key.  Then the
  type-2 merge succeeds and the table it leaves satisfies I1 for every key, and again has
  one row per key and \<open>effective_ts\<close>.  The key columns, \<open>effective_ts\<close> and \<open>end_ts\<close> are
  columns of the table, and \<open>end_ts\<close> is neither a key nor \<open>effective_ts\<close>.
\<close>

theorem scd_type2_tiles:
  assumes loc: "locate st h = Some l" and tab: "tables st l = Some T" and quiet: "conflicts st = 0"
    and e: "e \<noteq> []"
    and kT: "set ks \<subseteq> set (columns T)" and tT: "c \<in> set (columns T)"
    and eT: "e \<in> set (columns T)" and ek: "e \<notin> set ks" and et: "e \<noteq> c"
    and inv: "I1 ks c e (rows T)" and vT: "versions_ok ks c (rows T)"
    and nnB: "non_null_keys ks (rows src)" and vB: "versions_ok ks c (rows src)"
    and late: "arrives_later ks c (rows src) (rows T)"
  shows "fst (scd st h src ks c (Some e) 2 u) = Inr h
    \<and> holds_I1 ks c e (tables (snd (scd st h src ks c (Some e) 2 u)) l)
    \<and> holds_versions ks c (tables (snd (scd st h src ks c (Some e) 2 u)) l)
    \<and> map_option columns (tables (snd (scd st h src ks c (Some e) 2 u)) l) = Some (columns T)"
proof -
  from scd2_upsert_tiles [OF kT tT eT ek et inv vT nnB vB late]
  obtain T' where up: "upsert_all (ks @ [c]) (scd2_payload T src ks c e) T = Inr T'"
    and T': "columns T' = columns T" "I1 ks c e (rows T')" "versions_ok ks c (rows T')"
    by blast
  define st1 where "st1 = record_call (ReadSnapshot l) st"
  have "execute_merge st1 h (upsert_all (ks @ [c]) (scd2_payload T src ks c e))
          = (Inr (), (record_call (Merge l) st1)\<lparr>tables := (tables st1)(l \<mapsto> T')\<rparr>)"
    using up by (intro execute_merge_ok) (simp_all add: st1_def loc tab quiet)
  moreover have "resolves (ks @ [e]) T" "resolves [c] (unionByName T src)"
    using kT eT tT by (simp_all add: resolves_subset unionByName_def Let_def)
  ultimately have "scd st h src ks c (Some e) 2 u
          = (Inr h, (record_call (Merge l) st1)\<lparr>tables := (tables st1)(l \<mapsto> T')\<rparr>)"
    using e loc tab
    by (simp add: scd_def scd2_def falsy_def name_of_def toDF_Some st1_def [symmetric])
  then show ?thesis
    using T' by (simp add: holds_I1_def holds_versions_def)
qed

theorem scd_type2_tiles_witness:
  "fst (scd history_store (ForPath ''/t'') later_source [''id''] ''ts'' (Some ''end'') 2 ''u'')
     = Inr (ForPath ''/t'')
   \<and> holds_I1 [''id''] ''ts'' ''end''
       (tables (snd (scd history_store (ForPath ''/t'') later_source [''id''] ''ts'' (Some ''end'') 2
                       ''u'')) ''/t'')
   \<and> holds_versions [''id''] ''ts''
       (tables (snd (scd history_store (ForPath ''/t'') later_source [''id''] ''ts'' (Some ''end'') 2
                       ''u'')) ''/t'')"
proof -
  define T where "T = \<lparr>columns = [''id'', ''ts'', ''end''],
                        rows = [[(''id'', Some 1), (''ts'', Some 1), (''end'', Some 5)],
                                [(''id'', Some 1), (''ts'', Some 5), (''end'', None)]]\<rparr>"
  have loc: "locate history_store (ForPath ''/t'') = Some ''/t''"
    by (simp add: locate_def)
  have tab: "tables history_store ''/t'' = Some T"
    and quiet: "conflicts history_store = 0"
    by (simp_all add: history_store_def T_def)
  have e: "''end'' \<noteq> []" and ek: "''end'' \<notin> set [''id'']" and et: "''end'' \<noteq> ''ts''"
    by simp_all
  have kT: "set [''id''] \<subseteq> set (columns T)" and tT: "''ts'' \<in> set (columns T)"
    and eT: "''end'' \<in> set (columns T)"
    by (simp_all add: T_def)
  have inv: "I1 [''id''] ''ts'' ''end'' (rows T)"
    unfolding T_def by code_simp
  have vT: "versions_ok [''id''] ''ts'' (rows T)"
    unfolding T_def by code_simp
  have nnB: "non_null_keys [''id''] (rows later_source)"
    by code_simp
  have vB: "versions_ok [''id''] ''ts'' (rows later_source)"
    by code_simp
  have late: "arrives_later [''id''] ''ts'' (rows later_source) (rows T)"
    unfolding T_def by code_simp
  from scd_type2_tiles [OF loc tab quiet e kT tT eT ek et inv vT nnB vB late]
  show ?thesis by blast
qed

section \<open>Scenario A\<close>

text \<open>
  C2.  On an empty table with the columns \<open>id\<close>, \<open>ts\<close>, \<open>end\<close>, the type-2 merge of the
  batch \<open>[{id:1, ts:1}, {id:1, ts:2}]\<close> with keys \<open>[id]\<close>, effective_ts \<open>ts\<close> and end_ts
  \<open>end\<close> returns the table handle and leaves exactly the two rows
  \<open>{id:1, ts:1, end:2}\<close> and \<open>{id:1, ts:2, end:null}\<close> in the table.
\<close>

theorem scenario_A_two_rows:
  "fst (scd scenario_A_store (ForPath ''/t'') scenario_A_source [''id''] ''ts'' (Some ''end'') 2 ''u'')
     = Inr (ForPath ''/t'')
   \<and> tables (snd (scd scenario_A_store (ForPath ''/t'') scenario_A_source [''id''] ''ts''
                     (Some ''end'') 2 ''u'')) ''/t''
     = Some \<lparr>columns = [''id'', ''ts'', ''end''],
             rows = [[(''id'', Some 1), (''ts'', Some 1), (''end'', Some 2)],
                     [(''id'', Some 1), (''ts'', Some 2), (''end'', None)]]\<rparr>"
  by code_simp

section \<open>Configuration errors come first\<close>

text \<open>
  C5.  \<open>scd\<close> raises the configuration error (\<open>ValueError\<close>) exactly when the type is 2 and
  \<open>end_ts\<close> is absent (\<open>None\<close> or empty, Python's \<open>not end_ts\<close>), or when the type is neither
  1 nor 2; and when it does, the store is as it was: no call was made to it, neither a
  snapshot read nor a merge.
\<close>

theorem scd_configuration_error:
  "raises_ValueError (fst (scd st h src ks ets e ty u))
     = (ty = 2 \<and> falsy e \<or> ty \<noteq> 1 \<and> ty \<noteq> 2)
   \<and> (raises_ValueError (fst (scd st h src ks ets e ty u)) \<longrightarrow>
        snd (scd st h src ks ets e ty u) = st
        \<and> calls (snd (scd st h src ks ets e ty u)) = calls st)"
  using scd1_not_ValueError [of st h src ks ets u] scd2_ValueError_iff [of st h src ks ets e]
  by (auto simp: scd_def scd2_def)

theorem scd_configuration_error_witness:
  "raises_ValueError
     (fst (scd scenario_A_store (ForPath ''/t'') scenario_A_source [''id''] ''ts'' None 2 ''u''))
   \<and> snd (scd scenario_A_store (ForPath ''/t'') scenario_A_source [''id''] ''ts'' None 2 ''u'')
       = scenario_A_store
   \<and> calls (snd (scd scenario_A_store (ForPath ''/t'') scenario_A_source [''id''] ''ts'' None 2 ''u''))
       = []"
  using scd_configuration_error [of scenario_A_store "ForPath ''/t''" scenario_A_source
      "[''id'']" "''ts''" None 2 "''u''"]
  by (simp add: falsy_def scenario_A_store_def)

section \<open>Conflicts\<close>

text \<open>
  C6, as the specification states it, fails: on a store whose next commit conflicts and
  whose commit after that would succeed, the type-2 merge of Scenario A makes one merge
  attempt, returns \<open>ConflictError\<close> and leaves the table different from that of the
  uncontended run.
\<close>

theorem conflict_not_retried_counterexample:
  "fst (scd (scenario_A_store\<lparr>conflicts := 1\<rparr>) (ForPath ''/t'') scenario_A_source [''id''] ''ts''
          (Some ''end'') 2 ''u'') = Inl ConflictError
   \<and> calls (snd (scd (scenario_A_store\<lparr>conflicts := 1\<rparr>) (ForPath ''/t'') scenario_A_source
                    [''id''] ''ts'' (Some ''end'') 2 ''u''))
       = [ReadSnapshot ''/t'', Merge ''/t'']
   \<and> conflicts (snd (scd (scenario_A_store\<lparr>conflicts := 1\<rparr>) (ForPath ''/t'') scenario_A_source
                    [''id''] ''ts'' (Some ''end'') 2 ''u'')) = 0
   \<and> tables (snd (scd (scenario_A_store\<lparr>conflicts := 1\<rparr>) (ForPath ''/t'') scenario_A_source
                    [''id''] ''ts'' (Some ''end'') 2 ''u'')) ''/t''
       \<noteq> tables (snd (scd scenario_A_store (ForPath ''/t'') scenario_A_source
                    [''id''] ''ts'' (Some ''end'') 2 ''u'')) ''/t''"
  by code_simp

text \<open>
  C6, amended.  When the store reports a conflict on the commit of the merge, the engine
  does not retry: a call of \<open>scd\<close> that would succeed without the conflict makes one merge
  attempt (after the snapshot read, for type 2), returns \<open>ConflictError\<close> to the caller and
  leaves every table as it was before the call.  So the tables it leaves are those of the
  uncontended run only when the uncontended run changes no table.  The key columns are
  columns of the batch.
\<close>

theorem conflict_surfaces_after_one_attempt:
  assumes busy: "0 < conflicts st" and loc: "locate st h = Some l"
    and kS: "set ks \<subseteq> set (columns src)"
    and alone: "fst (scd (st\<lparr>conflicts := 0\<rparr>) h src ks ets e ty u) = Inr h"
  shows "fst (scd st h src ks ets e ty u) = Inl ConflictError
    \<and> tables (snd (scd st h src ks ets e ty u)) = tables st
    \<and> conflicts (snd (scd st h src ks ets e ty u)) = conflicts st - 1
    \<and> calls (snd (scd st h src ks ets e ty u))
        = calls st @ (if ty = 2 then [ReadSnapshot l, Merge l] else [Merge l])
    \<and> (tables (snd (scd st h src ks ets e ty u))
          = tables (snd (scd (st\<lparr>conflicts := 0\<rparr>) h src ks ets e ty u))
        \<longleftrightarrow> tables (snd (scd (st\<lparr>conflicts := 0\<rparr>) h src ks ets e ty u)) = tables st)"
proof -
  have loc0: "locate (st\<lparr>conflicts := 0\<rparr>) h = Some l"
    using loc by (simp add: locate_def split: handle.splits)
  from alone have ty: "ty = 1 \<or> ty = 2 \<and> \<not> falsy e"
    by (auto simp: scd_def scd2_def split: if_splits)
  then have run: "fst (scd st h src ks ets e ty u) = Inl ConflictError
    \<and> tables (snd (scd st h src ks ets e ty u)) = tables st
    \<and> conflicts (snd (scd st h src ks ets e ty u)) = conflicts st - 1
    \<and> calls (snd (scd st h src ks ets e ty u))
        = calls st @ (if ty = 2 then [ReadSnapshot l, Merge l] else [Merge l])"
  proof
    assume ty1: "ty = 1"
    define P where "P = scd1_payload src ks ets u"
    from alone ty1 have res: "resolves (ks @ [ets]) src"
      by (auto simp: scd_def scd1_def split: if_splits)
    with alone ty1 obtain st1 where
      "execute_merge (st\<lparr>conflicts := 0\<rparr>) h (upsert_all ks P) = (Inr (), st1)"
      by (auto simp: scd_def scd1_def P_def split: prod.splits sum.splits)
    from execute_merge_InrD [OF this] loc0 obtain t t' where
      "tables st l = Some t" "upsert_all ks P t = Inr t'"
      by auto
    with busy loc have "execute_merge st h (upsert_all ks P)
        = (Inl ConflictError, (record_call (Merge l) st)\<lparr>conflicts := conflicts st - 1\<rparr>)"
      by (rule execute_merge_conflict)
    with ty1 res show ?thesis
      by (simp add: scd_def scd1_def P_def)
  next
    assume ty2: "ty = 2 \<and> \<not> falsy e"
    with alone loc0 obtain t where t: "tables st l = Some t"
      by (auto simp: scd_def scd2_def toDF_def split: option.splits)
    define P where "P = scd2_payload t src ks ets (name_of e)"
    define sr where "sr = record_call (ReadSnapshot l) st"
    from alone ty2 loc0 t have res: "resolves (ks @ [name_of e]) t"
        "resolves [ets] (unionByName t src)"
      by (auto simp: scd_def scd2_def toDF_Some split: if_splits)
    with alone ty2 loc0 t obtain st1 where
      "execute_merge (record_call (ReadSnapshot l) (st\<lparr>conflicts := 0\<rparr>)) h
         (upsert_all (ks @ [ets]) P) = (Inr (), st1)"
      by (auto simp: scd_def scd2_def toDF_Some P_def split: prod.splits sum.splits)
    from execute_merge_InrD [OF this] loc0 t obtain t' where
      "upsert_all (ks @ [ets]) P t = Inr t'"
      by auto
    moreover have "0 < conflicts sr" "locate sr h = Some l" "tables sr l = Some t"
      using busy loc t by (simp_all add: sr_def)
    ultimately have "execute_merge sr h (upsert_all (ks @ [ets]) P)
        = (Inl ConflictError, (record_call (Merge l) sr)\<lparr>conflicts := conflicts sr - 1\<rparr>)"
      by (intro execute_merge_conflict)
    with ty2 loc t res show ?thesis
      by (simp add: scd_def scd2_def toDF_Some P_def sr_def)
  qed
  then have "tables (snd (scd st h src ks ets e ty u)) = tables st"
    by simp
  then have "(tables (snd (scd st h src ks ets e ty u))
          = tables (snd (scd (st\<lparr>conflicts := 0\<rparr>) h src ks ets e ty u))
        \<longleftrightarrow> tables (snd (scd (st\<lparr>conflicts := 0\<rparr>) h src ks ets e ty u)) = tables st)"
    by (simp only: eq_commute)
  with run show ?thesis by (simp only: simp_thms)
qed

theorem conflict_surfaces_after_one_attempt_witness:
  "fst (scd (scenario_A_store\<lparr>conflicts := 2\<rparr>) (ForPath ''/t'') scenario_A_source [''id''] ''ts''
          (Some ''end'') 2 ''u'') = Inl ConflictError
   \<and> tables (snd (scd (scenario_A_store\<lparr>conflicts := 2\<rparr>) (ForPath ''/t'') scenario_A_source
                    [''id''] ''ts'' (Some ''end'') 2 ''u'')) = tables scenario_A_store
   \<and> conflicts (snd (scd (scenario_A_store\<lparr>conflicts := 2\<rparr>) (ForPath ''/t'') scenario_A_source
                    [''id''] ''ts'' (Some ''end'') 2 ''u'')) = 1
   \<and> calls (snd (scd (scenario_A_store\<lparr>conflicts := 2\<rparr>) (ForPath ''/t'') scenario_A_source
                    [''id''] ''ts'' (Some ''end'') 2 ''u'')) = [ReadSnapshot ''/t'', Merge ''/t'']"
proof -
  have busy: "0 < conflicts (scenario_A_store\<lparr>conflicts := 2\<rparr>)"
    by simp
  have loc: "locate (scenario_A_store\<lparr>conflicts := 2\<rparr>) (ForPath ''/t'') = Some ''/t''"
    by (simp add: locate_def)
  have kS: "set [''id''] \<subseteq> set (columns scenario_A_source)"
    by (simp add: scenario_A_source_def)
  have alone: "fst (scd (scenario_A_store\<lparr>conflicts := 2, conflicts := 0\<rparr>) (ForPath ''/t'')
                      scenario_A_source [''id''] ''ts'' (Some ''end'') 2 ''u'') = Inr (ForPath ''/t'')"
    by code_simp
  from conflict_surfaces_after_one_attempt [OF busy loc kS alone]
  show ?thesis by (simp add: scenario_A_store_def)
qed

text \<open>
  A merge that changes nothing: the second type-1 application of Scenario B.  Under a
  conflict the caller gets \<open>ConflictError\<close>, and the table is the one that the uncontended
  run leaves, which is the table as it was.
\<close>

lemma conflict_on_a_merge_that_changes_nothing:
  "fst (scd ((snd (scd scenario_B_store (ForPath ''/t'') scenario_B_source [''id''] ''ts'' None 1
                     ''u''))\<lparr>conflicts := 1\<rparr>)
          (ForPath ''/t'') scenario_B_source [''id''] ''ts'' None 1 ''v'') = Inl ConflictError
   \<and> tables (snd (scd ((snd (scd scenario_B_store (ForPath ''/t'') scenario_B_source [''id''] ''ts''
                                None 1 ''u''))\<lparr>conflicts := 1\<rparr>)
                     (ForPath ''/t'') scenario_B_source [''id''] ''ts'' None 1 ''v'')) ''/t''
     = tables (snd (scd (snd (scd scenario_B_store (ForPath ''/t'') scenario_B_source [''id''] ''ts''
                                None 1 ''u''))
                     (ForPath ''/t'') scenario_B_source [''id''] ''ts'' None 1 ''v'')) ''/t''
   \<and> tables (snd (scd (snd (scd scenario_B_store (ForPath ''/t'') scenario_B_source [''id''] ''ts''
                                None 1 ''u''))
                     (ForPath ''/t'') scenario_B_source [''id''] ''ts'' None 1 ''v'')) ''/t''
     = Some \<lparr>columns = [''id'', ''ts'', ''val''],
             rows = [[(''id'', Some 1), (''ts'', Some 2), (''val'', Some 20)]]\<rparr>"
  by code_simp

section \<open>Bootstrap: where the rows are written\<close>

text \<open>
  C9.  \<open>bootstrap_scd2\<close> with both a path and a table identifier creates the table and
  writes the computed rows once, with \<open>saveAsTable\<close> on the identifier, and returns the
  handle resolved by name: the identifier names the table at the path, and that table
  holds the rows of the source with \<open>end_ts\<close> filled by the window, laid out in the schema
  of the source extended by \<open>end_ts\<close>.  The write to the path happens only when there is a
  path and no identifier, and then it puts the same rows there.  The keys and
  \<open>effective_ts\<close> are columns of the source.
\<close>

theorem bootstrap_write_branch:
  assumes cols: "set ks \<subseteq> set (columns src)" and ts: "ets \<in> set (columns src)"
  shows "(\<not> falsy path \<and> \<not> falsy ident \<longrightarrow>
      calls (snd (bootstrap_scd2 st src ks ets e pc path ident))
        = calls st @ [CreateOrReplace path ident pc, SaveAsTable (name_of ident)]
      \<and> fst (bootstrap_scd2 st src ks ets e pc path ident)
        = Inr (Some (ForName (name_of ident)))
      \<and> catalog (snd (bootstrap_scd2 st src ks ets e pc path ident)) (name_of ident)
        = Some (name_of path)
      \<and> tables (snd (bootstrap_scd2 st src ks ets e pc path ident)) (name_of path)
        = Some \<lparr>columns = add_column e (columns src),
                rows = map (conform (add_column e (columns src)))
                         (rows (withColumn_over e (lead ets)
                                  \<lparr>partitionBy = ks, orderBy = [Asc ets]\<rparr> src))\<rparr>)
   \<and> (SavePath p \<in> set (calls (snd (bootstrap_scd2 st src ks ets e pc path ident)))
        \<and> SavePath p \<notin> set (calls st)
      \<longrightarrow> \<not> falsy path \<and> falsy ident \<and> p = name_of path)
   \<and> (\<not> falsy path \<and> falsy ident \<longrightarrow>
      calls (snd (bootstrap_scd2 st src ks ets e pc path ident))
        = calls st @ [CreateOrReplace path ident pc, SavePath (name_of path)]
      \<and> fst (bootstrap_scd2 st src ks ets e pc path ident)
        = Inr (Some (ForPath (name_of path)))
      \<and> tables (snd (bootstrap_scd2 st src ks ets e pc path ident)) (name_of path)
        = Some \<lparr>columns = add_column e (columns src),
                rows = map (conform (add_column e (columns src)))
                         (rows (withColumn_over e (lead ets)
                                  \<lparr>partitionBy = ks, orderBy = [Asc ets]\<rparr> src))\<rparr>)"
proof -
  have res: "resolves (ks @ [ets]) src"
    using cols ts by (simp add: resolves_subset)
  show ?thesis
    using res
    by (auto simp: bootstrap_scd2_def Let_def create_or_replace_def saveAsTable_def
          save_path_def append_mergeSchema_def unionByName_def add_column_union)
qed

theorem bootstrap_write_branch_witness:
  "calls (snd (bootstrap_scd2 scenario_A_store scenario_A_source [''id''] ''ts'' ''end'' []
                 (Some ''/b'') (Some ''dim'')))
     = [CreateOrReplace (Some ''/b'') (Some ''dim'') [], SaveAsTable ''dim'']
   \<and> fst (bootstrap_scd2 scenario_A_store scenario_A_source [''id''] ''ts'' ''end'' []
            (Some ''/b'') (Some ''dim''))
     = Inr (Some (ForName ''dim''))
   \<and> catalog (snd (bootstrap_scd2 scenario_A_store scenario_A_source [''id''] ''ts'' ''end'' []
                     (Some ''/b'') (Some ''dim''))) ''dim'' = Some ''/b''
   \<and> tables (snd (bootstrap_scd2 scenario_A_store scenario_A_source [''id''] ''ts'' ''end'' []
                    (Some ''/b'') (Some ''dim''))) ''/b''
     = Some \<lparr>columns = [''id'', ''ts'', ''end''],
             rows = [[(''id'', Some 1), (''ts'', Some 1), (''end'', Some 2)],
                     [(''id'', Some 1), (''ts'', Some 2), (''end'', None)]]\<rparr>
   \<and> calls (snd (bootstrap_scd2 scenario_A_store scenario_A_source [''id''] ''ts'' ''end'' []
                 (Some ''/b'') None))
     = [CreateOrReplace (Some ''/b'') None [], SavePath ''/b'']
   \<and> tables (snd (bootstrap_scd2 scenario_A_store scenario_A_source [''id''] ''ts'' ''end'' []
                    (Some ''/b'') None)) ''/b''
     = Some \<lparr>columns = [''id'', ''ts'', ''end''],
             rows = [[(''id'', Some 1), (''ts'', Some 1), (''end'', Some 2)],
                     [(''id'', Some 1), (''ts'', Some 2), (''end'', None)]]\<rparr>"
proof -
  have ac: "add_column ''end'' (columns scenario_A_source) = [''id'', ''ts'', ''end'']"
    by (simp add: scenario_A_source_def add_column_def)
  have rows: "map (conform [''id'', ''ts'', ''end''])
        (rows (withColumn_over ''end'' (lead ''ts'')
                 \<lparr>partitionBy = [''id''], orderBy = [Asc ''ts'']\<rparr> scenario_A_source))
      = [[(''id'', Some 1), (''ts'', Some 1), (''end'', Some 2)],
         [(''id'', Some 1), (''ts'', Some 2), (''end'', None)]]"
    by code_simp
  have cols: "set [''id''] \<subseteq> set (columns scenario_A_source)"
    and ts: "''ts'' \<in> set (columns scenario_A_source)"
    by (simp_all add: scenario_A_source_def)
  from bootstrap_write_branch [OF cols ts, where path = "Some ''/b''" and ident = "Some ''dim''"
      and st = scenario_A_store and e = "''end''" and pc = "[]" and p = "''/b''",
      unfolded ac rows]
    bootstrap_write_branch [OF cols ts, where path = "Some ''/b''" and ident = None
      and st = scenario_A_store and e = "''end''" and pc = "[]" and p = "''/b''",
      unfolded ac rows]
  show ?thesis
    by (simp add: falsy_def name_of_def scenario_A_store_def)
qed

text \<open>When a key or \<open>effective_ts\<close> is not a column of the source, \<open>bootstrap_scd2\<close> raises
  before it creates the table: no call is made to the store.\<close>

lemma bootstrap_unresolved_column:
  assumes "\<not> (falsy path \<and> falsy ident)"
    and "\<not> (set ks \<subseteq> set (columns src) \<and> ets \<in> set (columns src))"
  shows "bootstrap_scd2 st src ks ets e pc path ident = (Inl UnresolvedColumn, st)"
  using assms by (auto simp: bootstrap_scd2_def resolves_subset)

section \<open>Table details\<close>

text \<open>
  C8, as the specification states it, fails: for a table of 7 files and 2048 bytes the
  record that \<open>detail\<close> returns carries neither number in any field; the two fields hold
  the strings.
\<close>

theorem detail_loses_numbers_counterexample:
  "\<not> carries_number
       (detail scenario_humanize_number scenario_humanize_bytes scenario_detail_row) 7
   \<and> \<not> carries_number
       (detail scenario_humanize_number scenario_humanize_bytes scenario_detail_row) 2048
   \<and> map_of (detail scenario_humanize_number scenario_humanize_bytes scenario_detail_row)
       ''num_files'' = Some (PyStr ''7'')
   \<and> map_of (detail scenario_humanize_number scenario_humanize_bytes scenario_detail_row)
       ''size'' = Some (PyStr ''2.00 KiB'')"
  by code_simp

text \<open>
  C8, amended.  \<open>detail\<close> returns the record in which \<open>num_files\<close> and \<open>size\<close> hold the
  humanized strings in place of the numbers they are computed from; every other field is
  the value the store reports.
\<close>

theorem detail_humanizes_in_place:
  "detail humanize_number humanize_bytes d =
     [(''created_at'', PyInt (createdAt d)),
      (''description'', py_opt (description d)),
      (''format'', PyStr (format d)),
      (''id'', PyStr (id d)),
      (''last_modified'', PyInt (lastModified d)),
      (''location'', PyStr (location d)),
      (''min_reader_version'', PyInt (minReaderVersion d)),
      (''min_writer_version'', PyInt (minWriterVersion d)),
      (''name'', py_opt (name d)),
      (''num_files'', PyStr (humanize_number (PyInt (numFiles d)))),
      (''partition_columns'', PyList (partitionColumns d)),
      (''properties'', PyDict (properties d)),
      (''size'', PyStr (humanize_bytes (PyInt (sizeInBytes d))))]"
  by (simp add: detail_def to_dict_def humanize_def DetailOutput_init_def setattr_def
        getattr_def Let_def)

end
